theory Spec2Isabelle
  imports Main "HOL-Library.Word"
begin

unbundle bit_operations_syntax

section \<open>Data model of \<^verbatim>\<open>sfc::Image\<close>\<close>

text \<open>
  The C++ types of the source: \<^verbatim>\<open>unsigned\<close> is a 32-bit word whose arithmetic wraps,
  \<^verbatim>\<open>rgba_t\<close> is a 32-bit packed colour, \<^verbatim>\<open>channel_t\<close> and \<^verbatim>\<open>index_t\<close> are bytes
  (the source assigns the decoder's \<^verbatim>\<open>unsigned char\<close> buffer to the index buffer and
  copies index values with a byte count equal to their number).  A \<^verbatim>\<open>std::vector\<close> is a
  list; its \<^verbatim>\<open>size()\<close> is a \<^verbatim>\<open>size_t\<close>, modelled by the natural number \<open>length\<close>.
\<close>

type_synonym u32 = "32 word"
type_synonym rgba_t = "32 word"
type_synonym channel_t = "8 word"
type_synonym index_t = "8 word"

text \<open>
  Failures as values.  \<open>RuntimeError\<close> is the \<^verbatim>\<open>std::runtime_error\<close> the source throws,
  carrying its message.  The other two constructors stand for undefined behaviour of
  the C++: an access outside a buffer (\<^verbatim>\<open>memcpy\<close>, \<^verbatim>\<open>operator[]\<close>) and an integer
  division by zero.
\<close>

datatype error = RuntimeError string | OutOfBounds | DivisionByZero

record Image =
  width :: u32
  height :: u32
  data :: "channel_t list"
  indexed_data :: "index_t list"
  palette :: "rgba_t list"

text \<open>The default-constructed image (\<^verbatim>\<open>Image img;\<close>): zero dimensions, empty buffers.\<close>

definition Image_default :: Image where
  "Image_default = \<lparr>width = 0, height = 0, data = [], indexed_data = [], palette = []\<rparr>"

text \<open>
  The invariant of the data model: the pixel buffer holds four bytes per pixel, the
  index buffer is absent (empty) or holds one index per pixel.
\<close>

definition wf_Image :: "Image \<Rightarrow> bool" where
  "wf_Image img \<longleftrightarrow>
     length (data img) = unat (width img) * unat (height img) * 4 \<and>
     (indexed_data img = [] \<or> length (indexed_data img) = unat (width img) * unat (height img))"

text \<open>
  Modelled from the spec: \<^verbatim>\<open>transparent_color\<close> is declared in a header that is not
  part of the sources; the specification fixes it as the packed colour with zero
  alpha and zero RGB.
\<close>

definition transparent_color :: rgba_t where
  "transparent_color = 0"

section \<open>Pixel access\<close>

text \<open>Channel \<open>k\<close> of a packed colour: \<^verbatim>\<open>(channel_t)((color >> 8 * k) & 0xff)\<close>.\<close>

definition channel :: "rgba_t \<Rightarrow> nat \<Rightarrow> channel_t" where
  "channel color k = ucast (drop_bit (8 * k) color AND 0xff)"

text \<open>An unchecked store \<^verbatim>\<open>v[k] = b\<close>: outside the vector it is undefined behaviour.\<close>

definition write_byte :: "channel_t list \<Rightarrow> nat \<Rightarrow> channel_t \<Rightarrow> error + channel_t list" where
  "write_byte d k b = (if k < length d then Inr (d[k := b]) else Inl OutOfBounds)"

text \<open>The four stores that both overloads of \<^verbatim>\<open>set_pixel\<close> perform after their guard.\<close>

definition store_rgba :: "channel_t list \<Rightarrow> u32 \<Rightarrow> rgba_t \<Rightarrow> error + channel_t list" where
  "store_rgba d offset color =
     (case write_byte d (unat (offset + 0)) (ucast (color AND 0xff)) of
        Inl e \<Rightarrow> Inl e
      | Inr d0 \<Rightarrow>
     (case write_byte d0 (unat (offset + 1)) (ucast (drop_bit 8 color AND 0xff)) of
        Inl e \<Rightarrow> Inl e
      | Inr d1 \<Rightarrow>
     (case write_byte d1 (unat (offset + 2)) (ucast (drop_bit 16 color AND 0xff)) of
        Inl e \<Rightarrow> Inl e
      | Inr d2 \<Rightarrow> write_byte d2 (unat (offset + 3)) (ucast (drop_bit 24 color AND 0xff)))))"

text \<open>\<^verbatim>\<open>set_pixel(color, index)\<close>.\<close>

definition set_pixel :: "Image \<Rightarrow> rgba_t \<Rightarrow> u32 \<Rightarrow> error + Image" where
  "set_pixel img color index =
     (let offset = index * 4 in
      if unat (offset + 3) > length (data img) then Inr img
      else case store_rgba (data img) offset color of
             Inl e \<Rightarrow> Inl e
           | Inr d \<Rightarrow> Inr (img\<lparr>data := d\<rparr>))"

text \<open>\<^verbatim>\<open>set_pixel(color, x, y)\<close>.\<close>

definition set_pixel_xy :: "Image \<Rightarrow> rgba_t \<Rightarrow> u32 \<Rightarrow> u32 \<Rightarrow> error + Image" where
  "set_pixel_xy img color x y =
     (let offset = ((y * width img) + x) * 4 in
      if unat (offset + 3) > length (data img) then Inr img
      else case store_rgba (data img) offset color of
             Inl e \<Rightarrow> Inl e
           | Inr d \<Rightarrow> Inr (img\<lparr>data := d\<rparr>))"

text \<open>
  \<^verbatim>\<open>blit\<close>: the loop counter \<open>i\<close> is an \<^verbatim>\<open>unsigned\<close> compared with a \<^verbatim>\<open>size_t\<close>, so
  on a buffer of \<open>2 ^ 32\<close> or more colours it wraps and the loop does not end; the
  function is therefore partial.  \<^verbatim>\<open>i % width\<close> and \<^verbatim>\<open>i / width\<close> divide by zero when
  \<open>width = 0\<close>.
\<close>

partial_function (option) blit_loop ::
  "rgba_t list \<Rightarrow> u32 \<Rightarrow> u32 \<Rightarrow> u32 \<Rightarrow> u32 \<Rightarrow> Image \<Rightarrow> (error + Image) option" where
  "blit_loop rgba_data x y w i img =
     (if unat i < length rgba_data then
        (if w = 0 then Some (Inl DivisionByZero)
         else case set_pixel_xy img (rgba_data ! unat i) ((i mod w) + x) ((i div w) + y) of
                Inl e \<Rightarrow> Some (Inl e)
              | Inr img' \<Rightarrow> blit_loop rgba_data x y w (i + 1) img')
      else Some (Inr img))"

declare blit_loop.simps [code]

definition blit :: "Image \<Rightarrow> rgba_t list \<Rightarrow> u32 \<Rightarrow> u32 \<Rightarrow> u32 \<Rightarrow> (error + Image) option" where
  "blit img rgba_data x y w = blit_loop rgba_data x y w 0 img"

section \<open>Cropping\<close>

text \<open>
  \<^verbatim>\<open>std::memcpy(dst + d, src + s, n)\<close> on two buffers: the \<open>n\<close> elements read and the
  \<open>n\<close> elements written must lie inside their buffers (a one-past-the-end address
  with \<open>n = 0\<close> is fine); anything else is undefined behaviour.
\<close>

definition memcpy :: "'a list \<Rightarrow> nat \<Rightarrow> 'a list \<Rightarrow> nat \<Rightarrow> nat \<Rightarrow> error + 'a list" where
  "memcpy dst d src s n =
     (if d + n \<le> length dst \<and> s + n \<le> length src
      then Inr (take d dst @ take n (drop s src) @ drop (d + n) dst)
      else Inl OutOfBounds)"

text \<open>
  The object representation of a \<^verbatim>\<open>uint32_t\<close> that \<^verbatim>\<open>memcpy(.., &fillval, 4)\<close> reads,
  on a little-endian machine.
\<close>

definition object_bytes :: "rgba_t \<Rightarrow> channel_t list" where
  "object_bytes v = [channel v 0, channel v 1, channel v 2, channel v 3]"

text \<open>
  \<^verbatim>\<open>for (size_t i = 0; i < fillsize; i += 4) std::memcpy(img._data.data() + i, &fillval, sizeof(fillval));\<close>
\<close>

function fill_loop :: "rgba_t \<Rightarrow> nat \<Rightarrow> nat \<Rightarrow> channel_t list \<Rightarrow> error + channel_t list" where
  "fill_loop fillval fillsize i d =
     (if i < fillsize then
        (case memcpy d i (object_bytes fillval) 0 4 of
           Inl e \<Rightarrow> Inl e
         | Inr d' \<Rightarrow> fill_loop fillval fillsize (i + 4) d')
      else Inr d)"
  by pat_completeness auto
termination
  by (relation "measure (\<lambda>(fillval, fillsize, i, d). fillsize - i)") auto

declare fill_loop.simps [simp del]

text \<open>An \<^verbatim>\<open>unsigned\<close> counter below a bound can be incremented without wrapping.\<close>

lemma unat_inc_below:
  fixes i :: u32
  assumes "i < n"
  shows "unat (i + 1) = Suc (unat i)"
proof -
  have "unat i < unat n" using assms by (simp add: word_less_nat_alt)
  moreover have "unat n < 2 ^ 32" using unsigned_less [of n] by simp
  ultimately have "unat i + unat (1 :: u32) < 2 ^ LENGTH(32)" by simp
  then show ?thesis by (simp add: unat_add_lem [THEN iffD1])
qed

text \<open>
  The two row-copy loops of \<^verbatim>\<open>crop\<close>,
  \<^verbatim>\<open>for (unsigned iy = 0; iy < blit_height; ++iy) std::memcpy(&dst[doff], &src[soff], n);\<close>
  where \<open>doff\<close> and \<open>soff\<close> are the offsets the source computes from \<open>iy\<close>.
\<close>

function copy_rows ::
  "(u32 \<Rightarrow> nat) \<Rightarrow> (u32 \<Rightarrow> nat) \<Rightarrow> nat \<Rightarrow> 'a list \<Rightarrow> u32 \<Rightarrow> u32 \<Rightarrow> 'a list \<Rightarrow> error + 'a list" where
  "copy_rows doff soff n src blit_height iy dst =
     (if iy < blit_height then
        (case memcpy dst (doff iy) src (soff iy) n of
           Inl e \<Rightarrow> Inl e
         | Inr dst' \<Rightarrow> copy_rows doff soff n src blit_height (iy + 1) dst')
      else Inr dst)"
  by pat_completeness auto
termination
  by (relation "measure (\<lambda>(doff, soff, n, src, blit_height, iy, dst). unat blit_height - unat iy)")
    (auto simp add: unat_inc_below word_less_nat_alt)

declare copy_rows.simps [simp del]

definition crop :: "Image \<Rightarrow> u32 \<Rightarrow> u32 \<Rightarrow> u32 \<Rightarrow> u32 \<Rightarrow> error + Image" where
  "crop src x y crop_width crop_height =
     (let img = Image_default\<lparr>palette := palette src, width := crop_width, height := crop_height,
                  data := replicate (unat (crop_width * crop_height * 4)) 0\<rparr>;
          fillval = transparent_color;
          fillsize = length (data img)
      in (case fill_loop fillval fillsize 0 (data img) of
            Inl e \<Rightarrow> Inl e
          | Inr filled \<Rightarrow>
             (let img = img\<lparr>data := filled\<rparr> in
              if x > width src \<or> y > height src then
                Inr (if indexed_data src \<noteq> []
                     then img\<lparr>indexed_data := replicate (unat (crop_width * crop_height)) 0\<rparr>
                     else img)
              else
                (let blit_width =
                       (if x + crop_width > width src then width src - x else crop_width);
                     blit_height =
                       (if y + crop_height > height src then height src - y else crop_height)
                 in (case copy_rows (\<lambda>iy. unat (iy * width img * 4))
                           (\<lambda>iy. unat ((x * 4) + ((iy + y) * width src * 4)))
                           (unat (blit_width * 4)) (data src) blit_height 0 (data img) of
                       Inl e \<Rightarrow> Inl e
                     | Inr copied \<Rightarrow>
                        (let img = img\<lparr>data := copied\<rparr> in
                         if indexed_data src \<noteq> [] then
                           (case copy_rows (\<lambda>iy. unat (iy * width img))
                                   (\<lambda>iy. unat (x + ((iy + y) * width src)))
                                   (unat blit_width) (indexed_data src) blit_height 0
                                   (replicate (unat (crop_width * crop_height)) 0) of
                              Inl e \<Rightarrow> Inl e
                            | Inr ix \<Rightarrow> Inr (img\<lparr>indexed_data := ix\<rparr>))
                         else Inr img))))))"

section \<open>Tile-grid slicing\<close>

text \<open>
  \<^verbatim>\<open>crops\<close>, \<^verbatim>\<open>rgba_crops\<close> and \<^verbatim>\<open>indexed_crops\<close> contain the same pair of nested
  \<^verbatim>\<open>while\<close> loops and differ in what they push for each crop; \<open>f\<close> is that projection.
  The cursors are \<^verbatim>\<open>unsigned\<close>: \<open>x + tile_width\<close> and \<open>y + tile_width\<close> wrap, and
  with a zero step they do not move, so the loops are partial functions
  (\<open>None\<close>: the call does not return).
\<close>

partial_function (option) walk_row ::
  "(Image \<Rightarrow> 'a) \<Rightarrow> Image \<Rightarrow> u32 \<Rightarrow> u32 \<Rightarrow> u32 \<Rightarrow> u32 \<Rightarrow> 'a list \<Rightarrow> (error + 'a list) option" where
  "walk_row f img tile_width tile_height y x v =
     (if x < width img then
        (case crop img x y tile_width tile_height of
           Inl e \<Rightarrow> Some (Inl e)
         | Inr c \<Rightarrow> walk_row f img tile_width tile_height y (x + tile_width) (v @ [f c]))
      else Some (Inr v))"

declare walk_row.simps [code]

partial_function (option) walk_rows ::
  "(Image \<Rightarrow> 'a) \<Rightarrow> Image \<Rightarrow> u32 \<Rightarrow> u32 \<Rightarrow> u32 \<Rightarrow> u32 \<Rightarrow> 'a list \<Rightarrow> (error + 'a list) option" where
  "walk_rows f img tile_width tile_height x y v =
     (if y < height img then
        (case walk_row f img tile_width tile_height y x v of
           None \<Rightarrow> None
         | Some (Inl e) \<Rightarrow> Some (Inl e)
         | Some (Inr v') \<Rightarrow> walk_rows f img tile_width tile_height 0 (y + tile_width) v')
      else Some (Inr v))"

declare walk_rows.simps [code]

definition crops :: "Image \<Rightarrow> u32 \<Rightarrow> u32 \<Rightarrow> (error + Image list) option" where
  "crops img tile_width tile_height = walk_rows (\<lambda>c. c) img tile_width tile_height 0 0 []"

text \<open>
  \<^verbatim>\<open>rgba_data()\<close> is \<^verbatim>\<open>sfc::to_rgba(_data)\<close>; \<^verbatim>\<open>to_rgba\<close> is defined outside the
  sources and taken as a parameter.
\<close>

definition rgba_crops ::
  "(channel_t list \<Rightarrow> rgba_t list) \<Rightarrow> Image \<Rightarrow> u32 \<Rightarrow> u32 \<Rightarrow> (error + rgba_t list list) option" where
  "rgba_crops to_rgba img tile_width tile_height =
     walk_rows (\<lambda>c. to_rgba (data c)) img tile_width tile_height 0 0 []"

definition indexed_crops :: "Image \<Rightarrow> u32 \<Rightarrow> u32 \<Rightarrow> (error + index_t list list) option" where
  "indexed_crops img tile_width tile_height =
     (if length (indexed_data img) = 0 then Some (Inl (RuntimeError ''No indexed data in image''))
      else walk_rows indexed_data img tile_width tile_height 0 0 [])"

section \<open>The re-quantize constructor\<close>

text \<open>
  The functions of the colour model and the pixel accessor that the constructor
  calls are declared in headers outside the sources; they are parameters of the
  model.  \<open>'m\<close> is the type \<^verbatim>\<open>sfc::Mode\<close>.
\<close>

record 'm Collaborators =
  reduce_color :: "rgba_t \<Rightarrow> 'm \<Rightarrow> rgba_t"
  normalize_color :: "rgba_t \<Rightarrow> 'm \<Rightarrow> rgba_t"
  rgba_color :: "rgba_t \<Rightarrow> rgba_t"
  rgba_color_at :: "Image \<Rightarrow> u32 \<Rightarrow> rgba_t"

text \<open>A \<^verbatim>\<open>sfc::Subpalette\<close>, as far as the constructor observes it.\<close>

record 'm Subpalette =
  get_normalized_colors :: "rgba_t list"
  mode :: 'm

text \<open>
  \<^verbatim>\<open>std::find(first, last, c) - first\<close>: the position of the first element equal to
  \<open>c\<close>, the length of the range when there is none.
\<close>

primrec std_find :: "'a list \<Rightarrow> 'a \<Rightarrow> nat" where
  "std_find [] c = 0"
| "std_find (p # ps) c = (if p = c then 0 else Suc (std_find ps c))"

function requantize_loop ::
  "'m Collaborators \<Rightarrow> Image \<Rightarrow> 'm \<Rightarrow> u32 \<Rightarrow> u32 \<Rightarrow> Image \<Rightarrow> error + Image" where
  "requantize_loop E image' mode' size' i this =
     (if i < size' then
        (let color = normalize_color E (reduce_color E (rgba_color_at E image' i) mode') mode' in
         if color = transparent_color then
           (case write_byte (indexed_data this) (unat i) 0 of
              Inl e \<Rightarrow> Inl e
            | Inr ix \<Rightarrow>
           (case set_pixel (this\<lparr>indexed_data := ix\<rparr>) transparent_color i of
              Inl e \<Rightarrow> Inl e
            | Inr this' \<Rightarrow> requantize_loop E image' mode' size' (i + 1) this'))
         else
           (let palette_index = std_find (palette this) color in
            if palette_index < length (palette this) then
              (case write_byte (indexed_data this) (unat i) (of_nat palette_index) of
                 Inl e \<Rightarrow> Inl e
               | Inr ix \<Rightarrow>
              (case set_pixel (this\<lparr>indexed_data := ix\<rparr>)
                      (rgba_color E (palette this ! palette_index)) i of
                 Inl e \<Rightarrow> Inl e
               | Inr this' \<Rightarrow> requantize_loop E image' mode' size' (i + 1) this'))
            else Inl (RuntimeError ''Color not in palette'')))
      else Inr this)"
  by pat_completeness auto
termination
  by (relation "measure (\<lambda>(E, image', mode', size', i, this). unat size' - unat i)")
    (auto simp add: unat_inc_below word_less_nat_alt)

declare requantize_loop.simps [simp del]

text \<open>\<^verbatim>\<open>Image::Image(const Image& image, const sfc::Subpalette& subpalette)\<close>.\<close>

definition Image_requantize :: "'m Collaborators \<Rightarrow> Image \<Rightarrow> 'm Subpalette \<Rightarrow> error + Image" where
  "Image_requantize E image' subpalette =
     (let this = Image_default\<lparr>palette := get_normalized_colors subpalette\<rparr> in
      if palette this = [] then Inl (RuntimeError ''No colors'')
      else
        let mode' = mode subpalette;
            this = this\<lparr>width := width image', height := height image'\<rparr>;
            size' = width this * height this;
            this = this\<lparr>indexed_data := replicate (unat size') 0\<rparr>;
            this = this\<lparr>data := replicate (unat (size' * 4)) 0\<rparr>
        in requantize_loop E image' mode' size' 0 this)"

section \<open>The decode constructor\<close>

text \<open>
  The PNG codec is a library outside the repository.  Its state, as far as the
  constructor reads and writes it, and its three entry points are parameters of the
  model: \<open>load_file\<close> and \<open>decode\<close> return the library's error code first (zero:
  success); \<open>decode state buffer\<close> also returns the bytes it appends to the output
  vector, the dimensions and the state it leaves.
\<close>

datatype LodePNGColorType = LCT_GREY | LCT_RGB | LCT_PALETTE | LCT_GREY_ALPHA | LCT_RGBA

record LodePNGColorMode =
  colortype :: LodePNGColorType
  bitdepth :: u32
  palette_table :: "channel_t list"
  palettesize :: nat

record LodePNGState =
  color_convert :: bool
  info_raw :: LodePNGColorMode
  info_png_color :: LodePNGColorMode

record Codec =
  load_file :: "string \<Rightarrow> nat \<times> channel_t list"
  decode :: "LodePNGState \<Rightarrow> channel_t list \<Rightarrow> nat \<times> channel_t list \<times> u32 \<times> u32 \<times> LodePNGState"
  lodepng_error_text :: "nat \<Rightarrow> string"

text \<open>A freshly constructed \<^verbatim>\<open>lodepng::State\<close>: conversion on, 8-bit RGBA on both sides.\<close>

definition State_default :: LodePNGState where
  "State_default =
     \<lparr>color_convert = True,
      info_raw = \<lparr>colortype = LCT_RGBA, bitdepth = 8, palette_table = [], palettesize = 0\<rparr>,
      info_png_color = \<lparr>colortype = LCT_RGBA, bitdepth = 8, palette_table = [], palettesize = 0\<rparr>\<rparr>"

text \<open>A read through the \<^verbatim>\<open>unsigned char*\<close> of the palette table.\<close>

definition read_byte :: "channel_t list \<Rightarrow> nat \<Rightarrow> error + channel_t" where
  "read_byte t k = (if k < length t then Inr (t ! k) else Inl OutOfBounds)"

text \<open>
  The loop over the palette table.  Its counter is an \<^verbatim>\<open>unsigned\<close> stepping by four
  and compared with a \<^verbatim>\<open>size_t\<close>, so the loop is a partial function.
\<close>

partial_function (option) palette_loop ::
  "channel_t list \<Rightarrow> nat \<Rightarrow> u32 \<Rightarrow> rgba_t list \<Rightarrow> (error + rgba_t list) option" where
  "palette_loop t n i pal =
     (if unat i < n * 4 then
        (case read_byte t (unat i) of Inl e \<Rightarrow> Some (Inl e) | Inr r \<Rightarrow>
        (case read_byte t (unat (i + 1)) of Inl e \<Rightarrow> Some (Inl e) | Inr g \<Rightarrow>
        (case read_byte t (unat (i + 2)) of Inl e \<Rightarrow> Some (Inl e) | Inr b \<Rightarrow>
        (case read_byte t (unat (i + 3)) of Inl e \<Rightarrow> Some (Inl e) | Inr a \<Rightarrow>
           palette_loop t n (i + 4)
             (pal @ [ucast r + push_bit 8 (ucast g) + push_bit 16 (ucast b) + push_bit 24 (ucast a)])))))
      else Some (Inr pal))"

declare palette_loop.simps [code]

text \<open>Lines 19 to 28: the branch for a palette-indexed file.\<close>

definition palette_branch ::
  "Image \<Rightarrow> LodePNGState \<Rightarrow> bool \<Rightarrow> (error + Image \<times> LodePNGState \<times> bool) option" where
  "palette_branch this state needs_conversion =
     (if colortype (info_raw state) = LCT_PALETTE then
        (case palette_loop (palette_table (info_raw state)) (palettesize (info_raw state)) 0
                (palette this) of
           None \<Rightarrow> None
         | Some (Inl e) \<Rightarrow> Some (Inl e)
         | Some (Inr pal) \<Rightarrow>
             Some (Inr (this\<lparr>indexed_data := data this, palette := pal\<rparr>,
                        state\<lparr>info_raw := (info_raw state)\<lparr>colortype := LCT_RGBA\<rparr>\<rparr>,
                        True)))
      else Some (Inr (this, state, needs_conversion)))"

text \<open>Lines 30 to 35 and 37 to 40: the two other tests that ask for a conversion.\<close>

definition colortype_branch :: "LodePNGState \<Rightarrow> bool \<Rightarrow> LodePNGState \<times> bool" where
  "colortype_branch state needs_conversion =
     (if colortype (info_png_color state) = LCT_RGB \<or>
         colortype (info_png_color state) = LCT_GREY \<or>
         colortype (info_png_color state) = LCT_GREY_ALPHA
      then (state\<lparr>info_raw := (info_raw state)\<lparr>colortype := LCT_RGBA\<rparr>\<rparr>, True)
      else (state, needs_conversion))"

definition bitdepth_branch :: "LodePNGState \<Rightarrow> bool \<Rightarrow> LodePNGState \<times> bool" where
  "bitdepth_branch state needs_conversion =
     (if bitdepth (info_png_color state) \<noteq> 8
      then (state\<lparr>info_raw := (info_raw state)\<lparr>bitdepth := 8\<rparr>\<rparr>, True)
      else (state, needs_conversion))"

text \<open>\<^verbatim>\<open>Image::Image(const std::string& path)\<close>.\<close>

definition Image_from_file :: "Codec \<Rightarrow> string \<Rightarrow> (error + Image) option" where
  "Image_from_file C path =
     (let (error, buffer) = load_file C path in
      if error \<noteq> 0 then Some (Inl (RuntimeError (lodepng_error_text C error)))
      else
        let state = State_default\<lparr>color_convert := False\<rparr>;
            (error, out, w, h, state) = decode C state buffer;
            this = Image_default\<lparr>data := data Image_default @ out\<rparr>
        in
        if error \<noteq> 0 then Some (Inl (RuntimeError (lodepng_error_text C error)))
        else
          (case palette_branch this state False of
             None \<Rightarrow> None
           | Some (Inl e) \<Rightarrow> Some (Inl e)
           | Some (Inr (this, state, needs_conversion)) \<Rightarrow>
               let (state, needs_conversion) = colortype_branch state needs_conversion;
                   (state, needs_conversion) = bitdepth_branch state needs_conversion
               in
               if needs_conversion then
                 (let this = this\<lparr>data := []\<rparr>;
                      state = state\<lparr>color_convert := True\<rparr>;
                      (error, out, w, h, state) = decode C state buffer;
                      this = this\<lparr>data := data this @ out\<rparr>
                  in
                  if error \<noteq> 0 then Some (Inl (RuntimeError (lodepng_error_text C error)))
                  else Some (Inr (this\<lparr>width := w, height := h\<rparr>)))
               else Some (Inr (this\<lparr>width := w, height := h\<rparr>))))"

section \<open>Concrete bitmaps used in the examples\<close>

definition img_1x1 :: Image where
  "img_1x1 = \<lparr>width = 1, height = 1, data = [0, 0, 0, 0], indexed_data = [], palette = []\<rparr>"

definition img_1x1_indexed :: Image where
  "img_1x1_indexed = \<lparr>width = 1, height = 1, data = [0, 0, 0, 0], indexed_data = [5], palette = [9]\<rparr>"

definition img_2x2 :: Image where
  "img_2x2 = \<lparr>width = 2, height = 2,
     data = [1, 2, 3, 4,  5, 6, 7, 8,  9, 10, 11, 12,  13, 14, 15, 16],
     indexed_data = [1, 2, 3, 4], palette = [7]\<rparr>"

definition img_1x2 :: Image where
  "img_1x2 = \<lparr>width = 1, height = 2, data = [1, 2, 3, 4,  5, 6, 7, 8],
     indexed_data = [1, 2], palette = [7]\<rparr>"

definition img_0_by_max :: Image where
  "img_0_by_max = \<lparr>width = 0, height = 0xFFFFFFFF, data = [], indexed_data = [], palette = []\<rparr>"

text \<open>Modelled from the spec: the accessor \<^verbatim>\<open>rgba_color_at\<close> is declared in a header that is not
  part of the sources; the specification fixes the byte order R, G, B, A and the packing
  \<open>R | G<<8 | B<<16 | A<<24\<close>.  It is used in the examples only.\<close>

definition rgba_color_at_le :: "Image \<Rightarrow> u32 \<Rightarrow> rgba_t" where
  "rgba_color_at_le img index =
     (let offset = unat index * 4 in
      if offset + 3 < length (data img)
      then ucast (data img ! offset) OR push_bit 8 (ucast (data img ! (offset + 1))) OR
           push_bit 16 (ucast (data img ! (offset + 2))) OR
           push_bit 24 (ucast (data img ! (offset + 3)))
      else 0)"

text \<open>A colour model that changes no colour, for the examples.\<close>

definition E_plain :: "unit Collaborators" where
  "E_plain = \<lparr>reduce_color = (\<lambda>c m. c), normalize_color = (\<lambda>c m. c), rgba_color = (\<lambda>c. c),
               rgba_color_at = rgba_color_at_le\<rparr>"

definition img_px2 :: Image where
  "img_px2 = \<lparr>width = 1, height = 1, data = [2, 0, 0, 0], indexed_data = [], palette = []\<rparr>"

definition sub_two :: "unit Subpalette" where
  "sub_two = \<lparr>get_normalized_colors = [1, 2], mode = ()\<rparr>"




text \<open>A subpalette of 257 colours whose last entry is the only one equal to 2.\<close>

definition sub_257 :: "unit Subpalette" where
  "sub_257 = \<lparr>get_normalized_colors = replicate 256 1 @ [2], mode = ()\<rparr>"

text \<open>What the decoder reports and returns for three one-pixel files: an 8-bit RGBA file,
  an 8-bit palette file (one opaque red entry, pixel index 0) and, two pixels wide, a
  4-bit palette file (entries black and white, pixel indices 1 and 0, which the raw
  pass packs into the single byte \<open>0x10\<close>).\<close>

definition mode_rgba8 :: LodePNGColorMode where
  "mode_rgba8 = \<lparr>colortype = LCT_RGBA, bitdepth = 8, palette_table = [], palettesize = 0\<rparr>"

definition codec_rgba8 :: Codec where
  "codec_rgba8 =
     \<lparr>load_file = (\<lambda>path. (0, [137, 80, 78, 71])),
      decode = (\<lambda>state buffer.
        (0, [1, 2, 3, 4], 1, 1, state\<lparr>info_raw := mode_rgba8, info_png_color := mode_rgba8\<rparr>)),
      lodepng_error_text = (\<lambda>e. ''error'')\<rparr>"

definition mode_pal8 :: LodePNGColorMode where
  "mode_pal8 = \<lparr>colortype = LCT_PALETTE, bitdepth = 8, palette_table = [255, 0, 0, 255],
                palettesize = 1\<rparr>"

definition codec_pal8 :: Codec where
  "codec_pal8 =
     \<lparr>load_file = (\<lambda>path. (0, [137, 80, 78, 71])),
      decode = (\<lambda>state buffer.
        if color_convert state then (0, [255, 0, 0, 255], 1, 1, state)
        else (0, [0], 1, 1, state\<lparr>info_raw := mode_pal8, info_png_color := mode_pal8\<rparr>)),
      lodepng_error_text = (\<lambda>e. ''error'')\<rparr>"

definition mode_pal4 :: LodePNGColorMode where
  "mode_pal4 = \<lparr>colortype = LCT_PALETTE, bitdepth = 4,
                palette_table = [0, 0, 0, 255,  255, 255, 255, 255], palettesize = 2\<rparr>"

definition codec_pal4 :: Codec where
  "codec_pal4 =
     \<lparr>load_file = (\<lambda>path. (0, [137, 80, 78, 71])),
      decode = (\<lambda>state buffer.
        if color_convert state then (0, [255, 255, 255, 255,  0, 0, 0, 255], 2, 1, state)
        else (0, [0x10], 2, 1, state\<lparr>info_raw := mode_pal4, info_png_color := mode_pal4\<rparr>)),
      lodepng_error_text = (\<lambda>e. ''error'')\<rparr>"

text \<open>The bitmap that the decode constructor builds from the 4-bit palette file above.\<close>

definition img_pal4 :: Image where
  "img_pal4 = \<lparr>width = 2, height = 1, data = [255, 255, 255, 255,  0, 0, 0, 255],
     indexed_data = [0x10], palette = [0xFF000000, 0xFFFFFFFF]\<rparr>"

section \<open>Vocabulary of the specification\<close>

text \<open>The ceiling of a quotient of natural numbers.\<close>

definition div_ceil :: "nat \<Rightarrow> nat \<Rightarrow> nat" where
  "div_ceil a b = (a + b - 1) div b"

text \<open>
  The grid walk as the specification words it: \<open>x\<close> from 0 in steps of \<open>tile_width\<close>
  while \<open>x < width\<close>, \<open>y\<close> from 0 in steps of \<open>tile_height\<close> while \<open>y < height\<close>,
  row by row.  It is compared below with what the loops of the source do.
\<close>

definition grid_positions_spec :: "nat \<Rightarrow> nat \<Rightarrow> nat \<Rightarrow> nat \<Rightarrow> (nat \<times> nat) list" where
  "grid_positions_spec w h tile_width tile_height =
     concat (map (\<lambda>j. map (\<lambda>i. (i * tile_width, j * tile_height)) [0..<div_ceil w tile_width])
                 [0..<div_ceil h tile_height])"

text \<open>Vocabulary for the re-quantize constructor.\<close>

text \<open>The colour of source pixel \<open>i\<close> after reduction and normalisation under the mode.\<close>

definition pixel_color :: "'m Collaborators \<Rightarrow> Image \<Rightarrow> 'm \<Rightarrow> nat \<Rightarrow> rgba_t" where
  "pixel_color E image' mode' i =
     normalize_color E (reduce_color E (rgba_color_at E image' (of_nat i)) mode') mode'"

text \<open>A colour the loop accepts: the transparent sentinel, or one that \<^verbatim>\<open>std::find\<close> finds.\<close>

definition color_ok :: "rgba_t list \<Rightarrow> rgba_t \<Rightarrow> bool" where
  "color_ok pal c \<longleftrightarrow> c = transparent_color \<or> std_find pal c < length pal"

text \<open>The index the loop stores for a colour it accepts.\<close>

definition expected_index :: "rgba_t list \<Rightarrow> rgba_t \<Rightarrow> index_t" where
  "expected_index pal c = (if c = transparent_color then 0 else of_nat (std_find pal c))"

text \<open>The colour whose channels the loop stores for a colour it accepts.\<close>

definition expected_rgba :: "'m Collaborators \<Rightarrow> rgba_t list \<Rightarrow> rgba_t \<Rightarrow> rgba_t" where
  "expected_rgba E pal c =
     (if c = transparent_color then transparent_color else rgba_color E (pal ! std_find pal c))"

text \<open>The pixel buffer after the four channel bytes of pixel \<open>k\<close> are overwritten.\<close>

definition put_rgba :: "channel_t list \<Rightarrow> nat \<Rightarrow> rgba_t \<Rightarrow> channel_t list" where
  "put_rgba d k color = d[4 * k := channel color 0, 4 * k + 1 := channel color 1,
                          4 * k + 2 := channel color 2, 4 * k + 3 := channel color 3]"

text \<open>The cells from position \<open>from\<close> on hold what the loop writes; the cells before are untouched.\<close>

definition requantized_cells ::
  "'m Collaborators \<Rightarrow> Image \<Rightarrow> 'm \<Rightarrow> nat \<Rightarrow> Image \<Rightarrow> Image \<Rightarrow> bool" where
  "requantized_cells E image' mode' from this this' \<longleftrightarrow>
     (\<forall>k<length (indexed_data this).
        indexed_data this' ! k =
          (if from \<le> k then expected_index (palette this) (pixel_color E image' mode' k)
           else indexed_data this ! k) \<and>
        (\<forall>c<4. data this' ! (4 * k + c) =
          (if from \<le> k
           then channel (expected_rgba E (palette this) (pixel_color E image' mode' k)) c
           else data this ! (4 * k + c))))"

text \<open>Vocabulary for the decode constructor.\<close>

text \<open>The packing \<open>R | G<<8 | B<<16 | A<<24\<close> of four channel bytes.\<close>

definition pack_rgba :: "channel_t \<Rightarrow> channel_t \<Rightarrow> channel_t \<Rightarrow> channel_t \<Rightarrow> rgba_t" where
  "pack_rgba r g b a =
     ((ucast r OR push_bit 8 (ucast g)) OR push_bit 16 (ucast b)) OR push_bit 24 (ucast a)"

text \<open>Entry \<open>k\<close> of the decoder's palette table, packed.\<close>

definition table_entry :: "channel_t list \<Rightarrow> nat \<Rightarrow> rgba_t" where
  "table_entry t k = pack_rgba (t ! (4 * k)) (t ! (4 * k + 1)) (t ! (4 * k + 2)) (t ! (4 * k + 3))"

text \<open>The decoder state of a second pass: conversion on, 8-bit RGBA requested.\<close>

definition second_pass_state :: "LodePNGState \<Rightarrow> LodePNGState" where
  "second_pass_state st =
     st\<lparr>color_convert := True, info_raw := (info_raw st)\<lparr>colortype := LCT_RGBA, bitdepth := 8\<rparr>\<rparr>"

section \<open>Properties of pixel access\<close>

lemma dvd4_unat_mul4: "4 dvd unat (a * 4 :: u32)"
  by (simp add: unat_word_ariths dvd_mod)

lemma unat_plus_small:
  assumes "4 dvd unat (off :: u32)" "k < 4"
  shows "unat (off + of_nat k) = unat off + k"
proof -
  have "unat off < 2 ^ 32" using unsigned_less [of off] by simp
  with assms(1) have "unat off + 4 \<le> 2 ^ 32" by (elim dvdE) simp
  with assms(2) have "unat off + unat (of_nat k :: u32) < 2 ^ 32"
    by (simp add: unat_of_nat)
  then show ?thesis using assms(2) by (simp add: unat_add_lem [THEN iffD1] unat_of_nat)
qed

lemma store_rgba_ok:
  assumes "4 dvd unat off" "unat off + 4 \<le> length d"
  shows "store_rgba d off color =
    Inr (d[unat off := channel color 0, unat off + 1 := channel color 1,
           unat off + 2 := channel color 2, unat off + 3 := channel color 3])"
  using assms unat_plus_small [of off 1] unat_plus_small [of off 2] unat_plus_small [of off 3]
  by (simp add: store_rgba_def write_byte_def channel_def)

text \<open>
  What both overloads do once the byte offset is computed, on a buffer whose length
  is a multiple of four.
\<close>

lemma guarded_store:
  assumes "4 dvd unat (off :: u32)" "4 dvd length (data img)"
  shows "(if unat (off + 3) > length (data img) then Inr img
          else case store_rgba (data img) off color of
                 Inl e \<Rightarrow> Inl e
               | Inr d \<Rightarrow> Inr (img\<lparr>data := d\<rparr>)) =
         Inr (if unat off + 4 \<le> length (data img)
              then img\<lparr>data := (data img)[unat off := channel color 0,
                     unat off + 1 := channel color 1, unat off + 2 := channel color 2,
                     unat off + 3 := channel color 3]\<rparr>
              else img)"
proof -
  have u3: "unat (off + 3) = unat off + 3"
    using unat_plus_small [OF assms(1), of 3] by simp
  show ?thesis
  proof (cases "unat off + 4 \<le> length (data img)")
    case True
    then show ?thesis using u3 store_rgba_ok [OF assms(1) True] by simp
  next
    case False
    from assms obtain a b where "unat off = 4 * a" "length (data img) = 4 * b"
      by (auto elim!: dvdE)
    with False have "unat off + 3 > length (data img)" by arith
    with False u3 show ?thesis by simp
  qed
qed

text \<open>
  C7.  On a bitmap whose pixel buffer has length \<open>width * height * 4\<close>, either
  overload of \<^verbatim>\<open>set_pixel\<close> returns normally (it never touches a byte outside the
  buffer, which the model would report as \<open>OutOfBounds\<close>): when the four bytes at the
  computed offset lie inside the buffer they are all written, R at the lowest
  address, then G, B, A; otherwise the bitmap is returned as it was.
\<close>

theorem set_pixel_all_or_nothing:
  assumes "length (data img) = unat (width img) * unat (height img) * 4"
  shows "(let off = unat (index * 4) in
            set_pixel img color index =
              Inr (if off + 4 \<le> length (data img)
                   then img\<lparr>data := (data img)[off := channel color 0, off + 1 := channel color 1,
                          off + 2 := channel color 2, off + 3 := channel color 3]\<rparr>
                   else img)) \<and>
         (let off = unat (((y * width img) + x) * 4) in
            set_pixel_xy img color x y =
              Inr (if off + 4 \<le> length (data img)
                   then img\<lparr>data := (data img)[off := channel color 0, off + 1 := channel color 1,
                          off + 2 := channel color 2, off + 3 := channel color 3]\<rparr>
                   else img))"
proof -
  have len: "4 dvd length (data img)" using assms by simp
  show ?thesis
    unfolding set_pixel_def set_pixel_xy_def Let_def
    by (intro conjI guarded_store [OF dvd4_unat_mul4 len])
qed

theorem set_pixel_all_or_nothing_witness:
  "length (data img_1x1) = unat (width img_1x1) * unat (height img_1x1) * 4 \<and>
   set_pixel img_1x1 0x11223344 0 = Inr (img_1x1\<lparr>data := [0x44, 0x33, 0x22, 0x11]\<rparr>) \<and>
   set_pixel img_1x1 0x11223344 1 = Inr img_1x1 \<and>
   set_pixel_xy img_1x1 0x11223344 0 0 = Inr (img_1x1\<lparr>data := [0x44, 0x33, 0x22, 0x11]\<rparr>) \<and>
   set_pixel_xy img_1x1 0x11223344 0 1 = Inr img_1x1"
proof -
  have h: "length (data img_1x1) = unat (width img_1x1) * unat (height img_1x1) * 4"
    by (simp add: img_1x1_def)
  show ?thesis
    using h set_pixel_all_or_nothing [OF h, of 0 "0x11223344" 0 0]
      set_pixel_all_or_nothing [OF h, of 1 "0x11223344" 1 0]
    by (simp add: img_1x1_def channel_def)
qed

lemma set_pixel_xy_frame:
  "set_pixel_xy img c x y = Inr img' \<Longrightarrow>
     width img' = width img \<and> height img' = height img \<and>
     indexed_data img' = indexed_data img \<and> palette img' = palette img"
  by (auto simp add: set_pixel_xy_def Let_def split: if_splits sum.splits)

lemma blit_loop_frame:
  assumes "blit_loop rgba x y w i img = Some r"
  shows "\<forall>img'. r = Inr img' \<longrightarrow> width img' = width img \<and> height img' = height img \<and>
     indexed_data img' = indexed_data img \<and> palette img' = palette img"
proof -
  let ?P = "\<lambda>(rgba :: rgba_t list) (x :: u32) (y :: u32) (w :: u32) (i :: u32) img r.
              \<forall>img'. r = Inr img' \<longrightarrow> width img' = width img \<and> height img' = height img \<and>
     indexed_data img' = indexed_data img \<and> palette img' = palette img"
  have "?P rgba x y w i img r"
  proof (rule blit_loop.raw_induct [where P = ?P and xa = "(((((rgba, x), y), w), i), img)"
        and ya = r, unfolded prod.case], goal_cases)
    case (1 f rgba x y w i img r)
    show ?case
    proof (intro allI impI)
      fix img' assume r: "r = Inr img'"
      show "width img' = width img \<and> height img' = height img \<and>
     indexed_data img' = indexed_data img \<and> palette img' = palette img"
      proof (cases "unat i < length rgba")
        case False
        with 1(2) r show ?thesis by simp
      next
        case True
        with 1(2) r have w: "w \<noteq> 0" by (auto split: if_splits)
        from True w 1(2) r obtain img1 where
          s: "set_pixel_xy img (rgba ! unat i) (i mod w + x) (i div w + y) = Inr img1"
          and f: "f rgba x y w (i + 1) img1 = Some (Inr img')"
          by (auto split: sum.splits)
        from 1(1) [OF f] set_pixel_xy_frame [OF s] show ?thesis by simp
      qed
    qed
  next
    case 2
    show ?case using assms by simp
  qed
  then show ?thesis .
qed

text \<open>
  C8.  Whenever \<^verbatim>\<open>blit(source_rgba, x, y, source_width)\<close> returns, the bitmap it
  leaves has the index buffer, the palette, the width and the height it had before:
  only the RGBA pixel buffer can differ.
\<close>

theorem blit_leaves_index_data:
  assumes "blit img rgba_data x y source_width = Some (Inr img')"
  shows "indexed_data img' = indexed_data img \<and> palette img' = palette img \<and>
         width img' = width img \<and> height img' = height img"
  using blit_loop_frame [OF assms [unfolded blit_def]] by simp

theorem blit_leaves_index_data_witness:
  "blit img_1x1_indexed [0x11223344, 7] 0 0 1 =
     Some (Inr (img_1x1_indexed\<lparr>data := [0x44, 0x33, 0x22, 0x11]\<rparr>)) \<and>
   indexed_data (img_1x1_indexed\<lparr>data := [0x44, 0x33, 0x22, 0x11]\<rparr>) = indexed_data img_1x1_indexed \<and>
   palette (img_1x1_indexed\<lparr>data := [0x44, 0x33, 0x22, 0x11]\<rparr>) = palette img_1x1_indexed \<and>
   width (img_1x1_indexed\<lparr>data := [0x44, 0x33, 0x22, 0x11]\<rparr>) = width img_1x1_indexed \<and>
   height (img_1x1_indexed\<lparr>data := [0x44, 0x33, 0x22, 0x11]\<rparr>) = height img_1x1_indexed"
proof -
  have run: "blit img_1x1_indexed [0x11223344, 7] 0 0 1 =
     Some (Inr (img_1x1_indexed\<lparr>data := [0x44, 0x33, 0x22, 0x11]\<rparr>))"
    by code_simp
  from run blit_leaves_index_data [OF run] show ?thesis by simp
qed

section \<open>Properties of cropping\<close>

subsection \<open>Word arithmetic without wrap-around\<close>

lemma unat_mult_nowrap:
  fixes a b :: u32
  shows "unat a * unat b < 2 ^ 32 \<Longrightarrow> unat (a * b) = unat a * unat b"
  using unat_mult_lem [of a b] by simp

lemma unat_add_nowrap:
  fixes a b :: u32
  shows "unat a + unat b < 2 ^ 32 \<Longrightarrow> unat (a + b) = unat a + unat b"
  using unat_add_lem [of a b] by simp

lemma unat_sub_le:
  fixes a b :: u32
  shows "b \<le> a \<Longrightarrow> unat (a - b) = unat a - unat b"
  by (simp add: unat_sub)


lemma unat_lt32: "unat (a :: u32) < 2 ^ 32"
proof -
  have "unat a < 2 ^ LENGTH(32)" by (rule unsigned_less)
  then show ?thesis by simp
qed

subsection \<open>The copy loops\<close>

lemma memcpy_ok:
  assumes "d + n \<le> length dst" "s + n \<le> length src"
  shows "\<exists>d'. memcpy dst d src s n = Inr d' \<and> length d' = length dst \<and>
           (\<forall>t<n. d' ! (d + t) = src ! (s + t)) \<and>
           (\<forall>k<length dst. k < d \<or> d + n \<le> k \<longrightarrow> d' ! k = dst ! k)"
proof -
  let ?d' = "take d dst @ take n (drop s src) @ drop (d + n) dst"
  have m: "memcpy dst d src s n = Inr ?d'" using assms by (simp add: memcpy_def)
  have l: "length ?d' = length dst" using assms by simp
  have a: "\<forall>t<n. ?d' ! (d + t) = src ! (s + t)"
    using assms by (auto simp add: nth_append)
  have b: "\<forall>k<length dst. k < d \<or> d + n \<le> k \<longrightarrow> ?d' ! k = dst ! k"
  proof (intro allI impI)
    fix k assume k: "k < length dst" and o: "k < d \<or> d + n \<le> k"
    show "?d' ! k = dst ! k"
    proof (cases "k < d")
      case True
      then show ?thesis using assms by (simp add: nth_append)
    next
      case False
      with o have ge: "d + n \<le> k" by simp
      have "min (length dst) d = d" using assms by simp
      moreover have "min (length src - s) n = n" using assms by simp
      moreover have "\<not> k - d < n" using ge by arith
      moreover have "d + n + (k - d - n) = k" using ge by arith
      ultimately show ?thesis using ge k assms
        by (simp add: nth_append)
    qed
  qed
  from m l a b show ?thesis by blast
qed

lemma memcpy_error: "memcpy dst d src s n = Inl e \<Longrightarrow> e = OutOfBounds"
  by (auto simp add: memcpy_def split: if_splits)



lemma inc_le_iff:
  fixes i :: u32
  assumes "i < n"
  shows "i + 1 \<le> j \<longleftrightarrow> i < j"
  using unat_inc_below [OF assms] by (simp add: word_le_nat_alt word_less_nat_alt Suc_le_eq)

lemma copy_rows_spec:
  assumes "\<And>j. iy \<le> j \<Longrightarrow> j < bh \<Longrightarrow> doff j + n \<le> length dst \<and> soff j + n \<le> length src"
      and "\<And>j k. iy \<le> j \<Longrightarrow> j < k \<Longrightarrow> k < bh \<Longrightarrow> doff j + n \<le> doff k"
  shows "\<exists>d'. copy_rows doff soff n src bh iy dst = Inr d' \<and> length d' = length dst \<and>
           (\<forall>j. iy \<le> j \<and> j < bh \<longrightarrow> (\<forall>t<n. d' ! (doff j + t) = src ! (soff j + t))) \<and>
           (\<forall>k<length dst. (\<forall>j. iy \<le> j \<and> j < bh \<longrightarrow> k < doff j \<or> doff j + n \<le> k)
               \<longrightarrow> d' ! k = dst ! k)"
  using assms
proof (induction doff soff n src bh iy dst rule: copy_rows.induct)
  case (1 doff soff n src bh iy dst)
  show ?case
  proof (cases "iy < bh")
    case False
    then have "copy_rows doff soff n src bh iy dst = Inr dst"
      by (simp add: copy_rows.simps)
    moreover from False have "\<And>j. \<not> (iy \<le> j \<and> j < bh)" by auto
    ultimately show ?thesis by auto
  next
    case True
    note inc = inc_le_iff [OF True]
    from "1.prems"(1) [of iy] True
    have b0: "doff iy + n \<le> length dst" "soff iy + n \<le> length src" by simp_all
    from memcpy_ok [OF b0] obtain d1 where
      m: "memcpy dst (doff iy) src (soff iy) n = Inr d1" and
      l1: "length d1 = length dst" and
      a1: "\<forall>t<n. d1 ! (doff iy + t) = src ! (soff iy + t)" and
      k1: "\<forall>k<length dst. k < doff iy \<or> doff iy + n \<le> k \<longrightarrow> d1 ! k = dst ! k"
      by blast
    have step: "copy_rows doff soff n src bh iy dst = copy_rows doff soff n src bh (iy + 1) d1"
      using True m by (subst copy_rows.simps) simp
    have p1: "\<And>j. iy + 1 \<le> j \<Longrightarrow> j < bh \<Longrightarrow>
                doff j + n \<le> length d1 \<and> soff j + n \<le> length src"
      using "1.prems"(1) l1 inc by (simp add: less_imp_le)
    have p2: "\<And>j k. iy + 1 \<le> j \<Longrightarrow> j < k \<Longrightarrow> k < bh \<Longrightarrow> doff j + n \<le> doff k"
      using "1.prems"(2) inc by (simp add: less_imp_le)
    from "1.IH" [OF True m p1 p2] obtain d' where
      r: "copy_rows doff soff n src bh (iy + 1) d1 = Inr d'" and
      l: "length d' = length d1" and
      a: "\<forall>j. iy + 1 \<le> j \<and> j < bh \<longrightarrow> (\<forall>t<n. d' ! (doff j + t) = src ! (soff j + t))" and
      k: "\<forall>k<length d1. (\<forall>j. iy + 1 \<le> j \<and> j < bh \<longrightarrow> k < doff j \<or> doff j + n \<le> k)
               \<longrightarrow> d' ! k = d1 ! k"
      by blast
    have A: "\<forall>j. iy \<le> j \<and> j < bh \<longrightarrow> (\<forall>t<n. d' ! (doff j + t) = src ! (soff j + t))"
    proof (intro allI impI)
      fix j t assume j: "iy \<le> j \<and> j < bh" and t: "t < n"
      show "d' ! (doff j + t) = src ! (soff j + t)"
      proof (cases "j = iy")
        case False
        with j have "iy + 1 \<le> j" using inc by (simp add: less_le)
        with a j t show ?thesis by blast
      next
        case True
        have "doff iy + t < length d1" using b0 t l1 by simp
        moreover have "\<forall>j. iy + 1 \<le> j \<and> j < bh \<longrightarrow> doff iy + t < doff j \<or> doff j + n \<le> doff iy + t"
        proof (intro allI impI)
          fix j' assume "iy + 1 \<le> j' \<and> j' < bh"
          then have "iy < j'" "j' < bh" using inc by simp_all
          from "1.prems"(2) [OF order_refl this] t show "doff iy + t < doff j' \<or> doff j' + n \<le> doff iy + t"
            by simp
        qed
        ultimately have "d' ! (doff iy + t) = d1 ! (doff iy + t)" using k by blast
        with a1 t True show ?thesis by simp
      qed
    qed
    have K: "\<forall>k<length dst. (\<forall>j. iy \<le> j \<and> j < bh \<longrightarrow> k < doff j \<or> doff j + n \<le> k)
               \<longrightarrow> d' ! k = dst ! k"
    proof (intro allI impI)
      fix k' assume kl: "k' < length dst"
        and out: "\<forall>j. iy \<le> j \<and> j < bh \<longrightarrow> k' < doff j \<or> doff j + n \<le> k'"
      from out True have o0: "k' < doff iy \<or> doff iy + n \<le> k'" by simp
      have "\<forall>j. iy + 1 \<le> j \<and> j < bh \<longrightarrow> k' < doff j \<or> doff j + n \<le> k'"
        using out inc by (simp add: less_imp_le)
      with k kl l1 have "d' ! k' = d1 ! k'" by simp
      also from k1 kl o0 have "d1 ! k' = dst ! k'" by blast
      finally show "d' ! k' = dst ! k'" .
    qed
    from step r l l1 A K show ?thesis by simp
  qed
qed


lemma rows_le: "(a::nat) + 1 \<le> b \<Longrightarrow> a * c + c \<le> b * c"
proof -
  assume "a + 1 \<le> b"
  then have "(a + 1) * c \<le> b * c" by (rule mult_le_mono1)
  then show ?thesis by (simp add: algebra_simps)
qed

lemma copy_rows_grid:
  fixes bh :: u32
  assumes doff: "\<And>j. j < bh \<Longrightarrow> doff j = unat j * cwB"
      and soff: "\<And>j. j < bh \<Longrightarrow> soff j = xB + (unat j + Y) * wB"
      and n: "n \<le> cwB" "xB + n \<le> wB"
      and len: "length dst = CH * cwB" "length src = H * wB"
      and bh: "unat bh \<le> CH" "Y + unat bh \<le> H"
  shows "\<exists>d'. copy_rows doff soff n src bh 0 dst = Inr d' \<and> length d' = length dst \<and>
         (\<forall>row<CH. \<forall>b<cwB. d' ! (row * cwB + b) =
            (if row < unat bh \<and> b < n then src ! ((Y + row) * wB + xB + b)
             else dst ! (row * cwB + b)))"
proof -
  have lt: "\<And>j. j < bh \<Longrightarrow> unat j < unat bh" by (simp add: word_less_nat_alt)
  have p1: "\<And>j. 0 \<le> j \<Longrightarrow> j < bh \<Longrightarrow> doff j + n \<le> length dst \<and> soff j + n \<le> length src"
  proof -
    fix j :: u32 assume j: "j < bh"
    from lt [OF j] bh have "unat j + 1 \<le> CH" "(unat j + Y) + 1 \<le> H" by simp_all
    then have "unat j * cwB + cwB \<le> CH * cwB" "(unat j + Y) * wB + wB \<le> H * wB"
      by (simp_all only: rows_le)
    with n show "doff j + n \<le> length dst \<and> soff j + n \<le> length src"
      by (simp add: doff [OF j] soff [OF j] len)
  qed
  have p2: "\<And>j k. 0 \<le> j \<Longrightarrow> j < k \<Longrightarrow> k < bh \<Longrightarrow> doff j + n \<le> doff k"
  proof -
    fix j k :: u32 assume jk: "j < k" and k: "k < bh"
    then have j: "j < bh" by simp
    from jk have "unat j + 1 \<le> unat k" by (simp add: word_less_nat_alt)
    then have "unat j * cwB + cwB \<le> unat k * cwB" by (rule rows_le)
    with n show "doff j + n \<le> doff k" by (simp add: doff [OF j] doff [OF k])
  qed
  from copy_rows_spec [of 0 bh doff n dst soff src, OF p1 p2] obtain d' where
    r: "copy_rows doff soff n src bh 0 dst = Inr d'" and
    l: "length d' = length dst" and
    a: "\<forall>j. 0 \<le> j \<and> j < bh \<longrightarrow> (\<forall>t<n. d' ! (doff j + t) = src ! (soff j + t))" and
    k: "\<forall>k<length dst. (\<forall>j. 0 \<le> j \<and> j < bh \<longrightarrow> k < doff j \<or> doff j + n \<le> k)
               \<longrightarrow> d' ! k = dst ! k"
    by blast
  have cells: "\<forall>row<CH. \<forall>b<cwB. d' ! (row * cwB + b) =
            (if row < unat bh \<and> b < n then src ! ((Y + row) * wB + xB + b)
             else dst ! (row * cwB + b))"
  proof (intro allI impI)
    fix row b assume row: "row < CH" and b: "b < cwB"
    show "d' ! (row * cwB + b) =
            (if row < unat bh \<and> b < n then src ! ((Y + row) * wB + xB + b)
             else dst ! (row * cwB + b))"
    proof (cases "row < unat bh \<and> b < n")
      case True
      define j :: u32 where "j = of_nat row"
      have "unat bh < 2 ^ 32" using unsigned_less [of bh] by simp
      with True have uj: "unat j = row" by (simp add: j_def unat_of_nat)
      with True have jb: "j < bh" by (simp add: word_less_nat_alt)
      from a jb True have "d' ! (doff j + b) = src ! (soff j + b)" by simp
      then show ?thesis using True by (simp add: doff [OF jb] soff [OF jb] uj add.commute add.left_commute)
    next
      case False
      from row have "row + 1 \<le> CH" by simp
      then have "row * cwB + cwB \<le> CH * cwB" by (rule rows_le)
      with b have kl: "row * cwB + b < length dst" by (simp add: len)
      have "\<forall>j. 0 \<le> j \<and> j < bh \<longrightarrow> row * cwB + b < doff j \<or> doff j + n \<le> row * cwB + b"
      proof (intro allI impI)
        fix j :: u32 assume "0 \<le> j \<and> j < bh"
        then have jb: "j < bh" by simp
        consider "unat j < row" | "row < unat j" | "unat j = row" by arith
        then show "row * cwB + b < doff j \<or> doff j + n \<le> row * cwB + b"
        proof cases
          case 1
          then have "unat j + 1 \<le> row" by simp
          then have "unat j * cwB + cwB \<le> row * cwB" by (rule rows_le)
          with n show ?thesis by (simp add: doff [OF jb])
        next
          case 2
          then have "row + 1 \<le> unat j" by simp
          then have "row * cwB + cwB \<le> unat j * cwB" by (rule rows_le)
          with b show ?thesis by (simp add: doff [OF jb])
        next
          case 3
          with lt [OF jb] False have "n \<le> b" by simp
          with 3 show ?thesis by (simp add: doff [OF jb])
        qed
      qed
      with k kl have "d' ! (row * cwB + b) = dst ! (row * cwB + b)" by blast
      with False show ?thesis by auto
    qed
  qed
  from r l cells show ?thesis by blast
qed

lemma copy_rows_none: "\<not> iy < bh \<Longrightarrow> copy_rows doff soff n src bh iy dst = Inr dst"
  by (simp add: copy_rows.simps)

lemma object_bytes_nth: "t < 4 \<Longrightarrow> object_bytes v ! t = channel v t"
proof -
  assume "t < 4"
  then consider "t = 0" | "t = 1" | "t = 2" | "t = 3" by arith
  then show ?thesis by cases (simp_all add: object_bytes_def)
qed

lemma fill_loop_ok:
  assumes "length d = n" "4 dvd n" "4 dvd i" "i \<le> n"
  shows "\<exists>d'. fill_loop v n i d = Inr d' \<and> length d' = n \<and>
           (\<forall>k<n. d' ! k = (if k < i then d ! k else channel v (k mod 4)))"
  using assms
proof (induction v n i d rule: fill_loop.induct)
  case (1 v n i d)
  show ?case
  proof (cases "i < n")
    case False
    with "1.prems" have "i = n" by simp
    then show ?thesis by (simp add: fill_loop.simps "1.prems")
  next
    case True
    from "1.prems" True have i4: "i + 4 \<le> n" by (auto elim!: dvdE)
    have b0: "i + 4 \<le> length d" "0 + 4 \<le> length (object_bytes v)"
      using i4 "1.prems" by (simp_all add: object_bytes_def)
    from memcpy_ok [OF b0] obtain d1 where
      m: "memcpy d i (object_bytes v) 0 4 = Inr d1" and
      l1: "length d1 = length d" and
      a1: "\<forall>t<4. d1 ! (i + t) = object_bytes v ! (0 + t)" and
      k1: "\<forall>k<length d. k < i \<or> i + 4 \<le> k \<longrightarrow> d1 ! k = d ! k"
      by blast
    have step: "fill_loop v n i d = fill_loop v n (i + 4) d1"
      using True m by (subst fill_loop.simps) simp
    from "1.IH" [OF True m] l1 "1.prems" i4 obtain d' where
      r: "fill_loop v n (i + 4) d1 = Inr d'" and l: "length d' = n" and
      c: "\<forall>k<n. d' ! k = (if k < i + 4 then d1 ! k else channel v (k mod 4))"
      by auto
    have "\<forall>k<n. d' ! k = (if k < i then d ! k else channel v (k mod 4))"
    proof (intro allI impI)
      fix k assume k: "k < n"
      consider "k < i" | "i \<le> k" "k < i + 4" | "i + 4 \<le> k" by arith
      then show "d' ! k = (if k < i then d ! k else channel v (k mod 4))"
      proof cases
        case 1
        with c k k1 "1.prems" show ?thesis by simp
      next
        case 2
        then obtain t where t: "k = i + t" "t < 4" by (metis add_less_cancel_left le_Suc_ex)
        with "1.prems" have "k mod 4 = t" by (auto elim!: dvdE)
        with c k 2 a1 t show ?thesis by (simp add: object_bytes_nth)
      next
        case 3
        with c k show ?thesis by simp
      qed
    qed
    with step r l show ?thesis by simp
  qed
qed


subsection \<open>The result of \<^verbatim>\<open>crop\<close>\<close>

lemma crop_unfold_outside:
  assumes F: "fill_loop transparent_color (unat (cw * ch * 4)) 0 (replicate (unat (cw * ch * 4)) 0) = Inr filled"
  and out: "x > width src \<or> y > height src"
  shows "crop src x y cw ch = Inr \<lparr>width = cw, height = ch, data = filled,
            indexed_data = (if indexed_data src \<noteq> [] then replicate (unat (cw * ch)) 0 else []), palette = palette src\<rparr>"
  using out
  apply (simp add: crop_def Let_def Image_default_def F split del: if_split cong: if_cong)
  apply simp
  done

lemma cell_lt: "(row::nat) < CH \<Longrightarrow> col < CW \<Longrightarrow> c < E \<Longrightarrow> (row * CW + col) * E + c < CW * CH * E"
proof -
  assume a: "row < CH" "col < CW" "c < E"
  then have "row * CW + col + 1 \<le> row * CW + CW" by simp
  also have "\<dots> \<le> CH * CW" using a(1) rows_le [of row CH CW] by simp
  finally have "(row * CW + col + 1) * E \<le> CH * CW * E" by (rule mult_le_mono1)
  with a(3) show ?thesis by (simp add: algebra_simps)
qed

lemma crop_rows:
  fixes x y cw ch w h e :: u32
  assumes E: "0 < unat e"
    and small: "unat w * unat h * unat e < 2 ^ 32"
    and sz: "unat cw * unat ch * unat e < 2 ^ 32"
    and xw: "unat x + unat cw < 2 ^ 32"
    and yh: "unat y + unat ch < 2 ^ 32"
    and ins: "x \<le> w" "y \<le> h"
    and lsrc: "length src = unat w * unat h * unat e"
    and ldst: "length dst = unat cw * unat ch * unat e"
  shows "\<exists>d'. copy_rows (\<lambda>iy. unat (iy * cw * e)) (\<lambda>iy. unat (x * e + (iy + y) * w * e))
                (unat ((if x + cw > w then w - x else cw) * e)) src
                (if y + ch > h then h - y else ch) 0 dst = Inr d' \<and>
              length d' = length dst \<and>
              (\<forall>row<unat ch. \<forall>col<unat cw. \<forall>c<unat e.
                 d' ! ((row * unat cw + col) * unat e + c) =
                   (if unat y + row < unat h \<and> unat x + col < unat w
                    then src ! (((unat y + row) * unat w + (unat x + col)) * unat e + c)
                    else dst ! ((row * unat cw + col) * unat e + c)))"
proof -
  define W H X Y CW CH E where "W = unat w" and "H = unat h" and "X = unat x" and "Y = unat y"
    and "CW = unat cw" and "CH = unat ch" and "E = unat e"
  note defs = W_def H_def X_def Y_def CW_def CH_def E_def
  define bw where "bw = (if x + cw > w then w - x else cw)"
  define bh where "bh = (if y + ch > h then h - y else ch)"
  have small': "W * H * E < 2 ^ 32" using small by (simp add: defs)
  have sz': "CW * CH * E < 2 ^ 32" using sz by (simp add: defs)
  have E': "1 \<le> E" using E by (simp add: defs)
  have XW: "X \<le> W" and YH: "Y \<le> H" using ins by (simp_all add: defs word_le_nat_alt)
  have uxc: "unat (x + cw) = X + CW" using xw by (simp add: defs unat_add_nowrap)
  have uyc: "unat (y + ch) = Y + CH" using yh by (simp add: defs unat_add_nowrap)
  have BW: "unat bw = min CW (W - X)"
    using XW uxc ins by (auto simp add: bw_def word_less_nat_alt unat_sub_le defs)
  have BH: "unat bh = min CH (H - Y)"
    using YH uyc ins by (auto simp add: bh_def word_less_nat_alt unat_sub_le defs)
  show ?thesis
  proof (cases "bh = 0")
    case True
    then have none: "copy_rows (\<lambda>iy. unat (iy * cw * e)) (\<lambda>iy. unat (x * e + (iy + y) * w * e))
                (unat (bw * e)) src bh 0 dst = Inr dst"
      by (simp add: copy_rows_none)
    from True BH have "CH = 0 \<or> H \<le> Y" by (auto simp add: min_def split: if_splits)
    then have "\<forall>row<CH. \<not> Y + row < H" by auto
    with none show ?thesis unfolding bw_def [symmetric] bh_def [symmetric] defs [symmetric] by simp
  next
    case False
    then have BH0: "0 < unat bh" by (simp add: unat_gt_0)
    with BH have CH1: "1 \<le> CH" and H1: "Y + 1 \<le> H" by (auto simp add: min_def split: if_splits)
    have EW: "W * E < 2 ^ 32"
    proof -
      have "1 \<le> H" using H1 by simp
      then have "W * E * 1 \<le> W * E * H" by (rule mult_le_mono2)
      then have "W * E \<le> W * H * E" by (simp add: mult_ac)
      then show ?thesis using small' by (rule le_less_trans)
    qed
    have ECW: "CW * E < 2 ^ 32"
    proof -
      have "CW * E * 1 \<le> CW * E * CH" using CH1 by (rule mult_le_mono2)
      then have "CW * E \<le> CW * CH * E" by (simp add: mult_ac)
      then show ?thesis using sz' by (rule le_less_trans)
    qed
    have n: "unat (bw * e) = min CW (W - X) * E"
    proof -
      have "min CW (W - X) * E \<le> CW * E" by (intro mult_le_mono1) simp
      then have "min CW (W - X) * E < 2 ^ 32" using ECW by (rule le_less_trans)
      then have "unat bw * unat e < 2 ^ 32" by (simp add: BW E_def)
      then show ?thesis by (simp add: unat_mult_nowrap BW E_def)
    qed
    have lt: "\<And>j. j < bh \<Longrightarrow> unat j < min CH (H - Y)" using BH by (simp add: word_less_nat_alt)
    have doff: "\<And>j. j < bh \<Longrightarrow> unat (j * cw * e) = unat j * (CW * E)"
    proof -
      fix j assume "j < bh"
      from lt [OF this] have j: "unat j \<le> CH" by simp
      have "unat j * (CW * E) \<le> CH * (CW * E)" using j by (rule mult_le_mono1)
      also have "\<dots> = CW * CH * E" by (simp add: mult_ac)
      finally have b: "unat j * (CW * E) < 2 ^ 32" using sz' by (rule le_less_trans)
      have "unat j * CW * 1 \<le> unat j * CW * E" using E' by (rule mult_le_mono2)
      then have "unat j * CW \<le> unat j * (CW * E)" by (simp add: mult_ac)
      then have a: "unat j * CW < 2 ^ 32" using b by (rule le_less_trans)
      from a have 1: "unat (j * cw) = unat j * CW" by (simp add: unat_mult_nowrap CW_def)
      from b have "unat (j * cw) * unat e < 2 ^ 32" by (simp only: 1 E_def [symmetric] mult.assoc)
      then have "unat (j * cw * e) = unat (j * cw) * unat e" by (rule unat_mult_nowrap)
      then show "unat (j * cw * e) = unat j * (CW * E)" by (simp only: 1 E_def [symmetric] mult.assoc)
    qed
    have soff: "\<And>j. j < bh \<Longrightarrow> unat (x * e + (j + y) * w * e) = X * E + (unat j + Y) * (W * E)"
    proof -
      fix j assume "j < bh"
      from lt [OF this] YH have j: "unat j + Y + 1 \<le> H" by arith
      then have jy: "unat j + unat y < 2 ^ 32" using unat_lt32 [of h] by (simp add: defs)
      then have 1: "unat (j + y) = unat j + Y" by (simp add: unat_add_nowrap Y_def)
      from j have "(unat j + Y) * (W * E) + W * E \<le> H * (W * E)" by (rule rows_le)
      also have "\<dots> = W * H * E" by (simp add: mult_ac)
      finally have tot: "(unat j + Y) * (W * E) + W * E < 2 ^ 32" using small' by (rule le_less_trans)
      have "(unat j + Y) * W * 1 \<le> (unat j + Y) * W * E" using E' by (rule mult_le_mono2)
      then have "(unat j + Y) * W \<le> (unat j + Y) * (W * E)" by (simp add: mult_ac)
      with tot have "(unat j + Y) * W < 2 ^ 32" by linarith
      then have "unat (j + y) * unat w < 2 ^ 32" by (simp add: 1 W_def)
      then have 2: "unat ((j + y) * w) = (unat j + Y) * W" by (simp add: unat_mult_nowrap 1 W_def)
      from tot have "(unat j + Y) * (W * E) < 2 ^ 32" by linarith
      then have "unat ((j + y) * w) * unat e < 2 ^ 32" by (simp only: 2 E_def [symmetric] mult.assoc)
      then have "unat ((j + y) * w * e) = unat ((j + y) * w) * unat e" by (rule unat_mult_nowrap)
      then have 3: "unat ((j + y) * w * e) = (unat j + Y) * (W * E)"
        by (simp only: 2 E_def [symmetric] mult.assoc)
      have xe: "X * E \<le> W * E" using XW by (rule mult_le_mono1)
      then have "X * E < 2 ^ 32" using EW by (rule le_less_trans)
      then have "unat x * unat e < 2 ^ 32" by (simp add: X_def E_def)
      then have 4: "unat (x * e) = X * E" by (simp add: unat_mult_nowrap X_def E_def)
      from tot xe have "unat (x * e) + unat ((j + y) * w * e) < 2 ^ 32"
        unfolding 3 4 by linarith
      then have "unat (x * e + (j + y) * w * e) = unat (x * e) + unat ((j + y) * w * e)"
        by (rule unat_add_nowrap)
      then show "unat (x * e + (j + y) * w * e) = X * E + (unat j + Y) * (W * E)"
        by (simp add: 3 4)
    qed
    have n1: "min CW (W - X) * E \<le> CW * E" by (intro mult_le_mono1) simp
    have n2: "X * E + min CW (W - X) * E \<le> W * E"
    proof -
      have "X + min CW (W - X) \<le> W" using XW by simp
      then have "(X + min CW (W - X)) * E \<le> W * E" by (rule mult_le_mono1)
      then show ?thesis by (simp add: algebra_simps)
    qed
    have l1: "length dst = CH * (CW * E)" using ldst by (simp add: defs mult_ac)
    have l2: "length src = H * (W * E)" using lsrc by (simp add: defs mult_ac)
    have b1: "unat bh \<le> CH" and b2: "Y + unat bh \<le> H" using BH YH by simp_all
    from copy_rows_grid [where doff = "\<lambda>iy. unat (iy * cw * e)"
        and soff = "\<lambda>iy. unat (x * e + (iy + y) * w * e)" and bh = bh, OF doff soff n1 n2 l1 l2 b1 b2]
    obtain d' where
      r: "copy_rows (\<lambda>iy. unat (iy * cw * e)) (\<lambda>iy. unat (x * e + (iy + y) * w * e))
            (min CW (W - X) * E) src bh 0 dst = Inr d'" and
      l: "length d' = length dst" and
      g: "\<forall>row<CH. \<forall>b<CW * E. d' ! (row * (CW * E) + b) =
            (if row < unat bh \<and> b < min CW (W - X) * E then src ! ((Y + row) * (W * E) + X * E + b)
             else dst ! (row * (CW * E) + b))"
      by blast
    have cells: "\<forall>row<CH. \<forall>col<CW. \<forall>c<E.
                 d' ! ((row * CW + col) * E + c) =
                   (if Y + row < H \<and> X + col < W
                    then src ! (((Y + row) * W + (X + col)) * E + c)
                    else dst ! ((row * CW + col) * E + c))"
    proof (intro allI impI)
      fix row col c assume row: "row < CH" and col: "col < CW" and c: "c < E"
      have "col * E + c + 1 \<le> col * E + E" using c by simp
      also have "\<dots> \<le> CW * E" using col rows_le [of col CW E] by simp
      finally have b: "col * E + c < CW * E" by simp
      have reg: "(row < unat bh \<and> col * E + c < min CW (W - X) * E) \<longleftrightarrow> (Y + row < H \<and> X + col < W)"
      proof -
        define M where "M = min CW (W - X)"
        have "col * E + c < M * E \<longleftrightarrow> col < M"
        proof
          assume a: "col * E + c < M * E"
          show "col < M"
          proof (rule ccontr)
            assume "\<not> col < M"
            then have "M \<le> col" by simp
            then have "M * E \<le> col * E" by (rule mult_le_mono1)
            with a show False by linarith
          qed
        next
          assume "col < M"
          then have "col + 1 \<le> M" by simp
          then have "col * E + E \<le> M * E" by (rule rows_le)
          with c show "col * E + c < M * E" by linarith
        qed
        then have "col * E + c < min CW (W - X) * E \<longleftrightarrow> col < min CW (W - X)"
          by (simp only: M_def)
        with row col BH XW YH show ?thesis by auto
      qed
      have i1: "row * (CW * E) + (col * E + c) = (row * CW + col) * E + c" by (simp add: algebra_simps)
      have i2: "(Y + row) * (W * E) + X * E + (col * E + c) = ((Y + row) * W + (X + col)) * E + c"
        by (simp add: algebra_simps)
      from g row b have "d' ! (row * (CW * E) + (col * E + c)) =
            (if row < unat bh \<and> col * E + c < min CW (W - X) * E
             then src ! ((Y + row) * (W * E) + X * E + (col * E + c))
             else dst ! (row * (CW * E) + (col * E + c)))" by blast
      then show "d' ! ((row * CW + col) * E + c) =
                   (if Y + row < H \<and> X + col < W
                    then src ! (((Y + row) * W + (X + col)) * E + c)
                    else dst ! ((row * CW + col) * E + c))"
        unfolding reg i1 i2 .
    qed
    from r l cells n show ?thesis
      unfolding bw_def [symmetric] bh_def [symmetric] defs [symmetric] by simp
  qed
qed

lemma crop_rows_index:
  fixes x y cw ch w h :: u32
  assumes small: "unat w * unat h < 2 ^ 32"
    and sz: "unat cw * unat ch < 2 ^ 32"
    and xw: "unat x + unat cw < 2 ^ 32"
    and yh: "unat y + unat ch < 2 ^ 32"
    and ins: "x \<le> w" "y \<le> h"
    and lsrc: "length src = unat w * unat h"
    and ldst: "length dst = unat cw * unat ch"
  shows "\<exists>d'. copy_rows (\<lambda>iy. unat (iy * cw)) (\<lambda>iy. unat (x + (iy + y) * w))
                (unat (if x + cw > w then w - x else cw)) src
                (if y + ch > h then h - y else ch) 0 dst = Inr d' \<and>
              length d' = length dst \<and>
              (\<forall>row<unat ch. \<forall>col<unat cw.
                 d' ! (row * unat cw + col) =
                   (if unat y + row < unat h \<and> unat x + col < unat w
                    then src ! ((unat y + row) * unat w + (unat x + col))
                    else dst ! (row * unat cw + col)))"
proof -
  have u1: "unat (1 :: u32) = 1" by simp
  from crop_rows [of 1 w h cw ch x y src dst] assms
  obtain d' where
    r: "copy_rows (\<lambda>iy. unat (iy * cw * 1)) (\<lambda>iy. unat (x * 1 + (iy + y) * w * 1))
                (unat ((if x + cw > w then w - x else cw) * 1)) src
                (if y + ch > h then h - y else ch) 0 dst = Inr d'" and
    l: "length d' = length dst" and
    g: "\<forall>row<unat ch. \<forall>col<unat cw. \<forall>c<1.
                 d' ! ((row * unat cw + col) * 1 + c) =
                   (if unat y + row < unat h \<and> unat x + col < unat w
                    then src ! (((unat y + row) * unat w + (unat x + col)) * 1 + c)
                    else dst ! ((row * unat cw + col) * 1 + c))"
    unfolding u1 by auto
  have r': "copy_rows (\<lambda>iy. unat (iy * cw)) (\<lambda>iy. unat (x + (iy + y) * w))
                (unat (if x + cw > w then w - x else cw)) src
                (if y + ch > h then h - y else ch) 0 dst = Inr d'"
    using r by (simp only: mult.right_neutral)
  have g': "\<forall>row<unat ch. \<forall>col<unat cw.
                 d' ! (row * unat cw + col) =
                   (if unat y + row < unat h \<and> unat x + col < unat w
                    then src ! ((unat y + row) * unat w + (unat x + col))
                    else dst ! (row * unat cw + col))"
  proof (intro allI impI)
    fix row col assume "row < unat ch" "col < unat cw"
    with g have "d' ! ((row * unat cw + col) * 1 + 0) =
                   (if unat y + row < unat h \<and> unat x + col < unat w
                    then src ! (((unat y + row) * unat w + (unat x + col)) * 1 + 0)
                    else dst ! ((row * unat cw + col) * 1 + 0))" by blast
    then show "d' ! (row * unat cw + col) =
                   (if unat y + row < unat h \<and> unat x + col < unat w
                    then src ! ((unat y + row) * unat w + (unat x + col))
                    else dst ! (row * unat cw + col))"
      by (simp only: mult.right_neutral add.right_neutral)
  qed
  from r' l g' show ?thesis by blast
qed

lemma mod4_cell: "c < 4 \<Longrightarrow> ((m::nat) * 4 + c) mod 4 = c"
  by simp

lemma crop_unfold_plain:
  assumes F: "fill_loop transparent_color (unat (cw * ch * 4)) 0 (replicate (unat (cw * ch * 4)) 0) = Inr filled"
  and ins: "\<not> (x > width src \<or> y > height src)"
  and C1: "copy_rows (\<lambda>iy. unat (iy * cw * 4)) (\<lambda>iy. unat (x * 4 + (iy + y) * width src * 4))
                (unat ((if x + cw > width src then width src - x else cw) * 4)) (data src)
                (if y + ch > height src then height src - y else ch) 0 filled = Inr copied"
  and plain: "indexed_data src = []"
  shows "crop src x y cw ch = Inr \<lparr>width = cw, height = ch, data = copied,
            indexed_data = [], palette = palette src\<rparr>"
  using ins plain
  by (simp add: crop_def Let_def Image_default_def F C1 split del: if_split cong: if_cong)

lemma crop_unfold_indexed:
  assumes F: "fill_loop transparent_color (unat (cw * ch * 4)) 0 (replicate (unat (cw * ch * 4)) 0) = Inr filled"
  and ins: "\<not> (x > width src \<or> y > height src)"
  and C1: "copy_rows (\<lambda>iy. unat (iy * cw * 4)) (\<lambda>iy. unat (x * 4 + (iy + y) * width src * 4))
                (unat ((if x + cw > width src then width src - x else cw) * 4)) (data src)
                (if y + ch > height src then height src - y else ch) 0 filled = Inr copied"
  and C2: "copy_rows (\<lambda>iy. unat (iy * cw)) (\<lambda>iy. unat (x + (iy + y) * width src))
                (unat (if x + cw > width src then width src - x else cw)) (indexed_data src)
                (if y + ch > height src then height src - y else ch) 0 (replicate (unat (cw * ch)) 0) = Inr ix"
  and indexed: "indexed_data src \<noteq> []"
  shows "crop src x y cw ch = Inr \<lparr>width = cw, height = ch, data = copied,
            indexed_data = ix, palette = palette src\<rparr>"
  using ins indexed
  by (simp add: crop_def Let_def Image_default_def F C1 C2 split del: if_split cong: if_cong)

lemma crop_assemble:
  assumes eq: "crop src x y cw ch =
      Inr \<lparr>width = cw, height = ch, data = d, indexed_data = ix, palette = palette src\<rparr>"
    and ld: "length d = unat cw * unat ch * 4"
    and li: "length ix = (if indexed_data src = [] then 0 else unat cw * unat ch)"
    and dcells: "\<And>row col c. row < unat ch \<Longrightarrow> col < unat cw \<Longrightarrow> c < 4 \<Longrightarrow>
        d ! ((row * unat cw + col) * 4 + c) =
          (if unat y + row < unat (height src) \<and> unat x + col < unat (width src)
           then data src ! (((unat y + row) * unat (width src) + (unat x + col)) * 4 + c)
           else channel transparent_color c)"
    and icells: "\<And>row col. indexed_data src \<noteq> [] \<Longrightarrow> row < unat ch \<Longrightarrow> col < unat cw \<Longrightarrow>
        ix ! (row * unat cw + col) =
          (if unat y + row < unat (height src) \<and> unat x + col < unat (width src)
           then indexed_data src ! ((unat y + row) * unat (width src) + (unat x + col))
           else 0)"
  shows "\<exists>img'. crop src x y cw ch = Inr img' \<and>
           width img' = cw \<and> height img' = ch \<and> palette img' = palette src \<and>
           length (data img') = unat cw * unat ch * 4 \<and>
           length (indexed_data img') = (if indexed_data src = [] then 0 else unat cw * unat ch) \<and>
           (\<forall>row<unat ch. \<forall>col<unat cw.
              (\<forall>c<4. data img' ! ((row * unat cw + col) * 4 + c) =
                 (if unat y + row < unat (height src) \<and> unat x + col < unat (width src)
                  then data src ! (((unat y + row) * unat (width src) + (unat x + col)) * 4 + c)
                  else channel transparent_color c)) \<and>
              (indexed_data src \<noteq> [] \<longrightarrow>
                 indexed_data img' ! (row * unat cw + col) =
                 (if unat y + row < unat (height src) \<and> unat x + col < unat (width src)
                  then indexed_data src ! ((unat y + row) * unat (width src) + (unat x + col))
                  else 0)))"
proof (intro exI [of _ "\<lparr>width = cw, height = ch, data = d, indexed_data = ix, palette = palette src\<rparr>"]
    conjI allI impI, goal_cases)
  case 1 show ?case by (rule eq)
next
  case 2 show ?case by (simp only: Image.select_convs)
next
  case 3 show ?case by (simp only: Image.select_convs)
next
  case 4 show ?case by (simp only: Image.select_convs)
next
  case 5 show ?case by (simp only: Image.select_convs ld)
next
  case 6 show ?case by (simp only: Image.select_convs li)
next
  case (7 row col c)
  from dcells [OF 7] show ?case by (simp only: Image.select_convs)
next
  case (8 row col)
  from icells [OF 8(3) 8(1) 8(2)] show ?case by (simp only: Image.select_convs)
qed

lemma crop_spec:
  assumes wf: "wf_Image src"
    and small: "unat (width src) * unat (height src) * 4 < 2 ^ 32"
    and xw: "unat x + unat cw < 2 ^ 32"
    and yh: "unat y + unat ch < 2 ^ 32"
    and sz: "unat cw * unat ch * 4 < 2 ^ 32"
  shows "\<exists>img'. crop src x y cw ch = Inr img' \<and>
           width img' = cw \<and> height img' = ch \<and> palette img' = palette src \<and>
           length (data img') = unat cw * unat ch * 4 \<and>
           length (indexed_data img') = (if indexed_data src = [] then 0 else unat cw * unat ch) \<and>
           (\<forall>row<unat ch. \<forall>col<unat cw.
              (\<forall>c<4. data img' ! ((row * unat cw + col) * 4 + c) =
                 (if unat y + row < unat (height src) \<and> unat x + col < unat (width src)
                  then data src ! (((unat y + row) * unat (width src) + (unat x + col)) * 4 + c)
                  else channel transparent_color c)) \<and>
              (indexed_data src \<noteq> [] \<longrightarrow>
                 indexed_data img' ! (row * unat cw + col) =
                 (if unat y + row < unat (height src) \<and> unat x + col < unat (width src)
                  then indexed_data src ! ((unat y + row) * unat (width src) + (unat x + col))
                  else 0)))"
proof -
  define W H X Y CW CH where "W = unat (width src)" and "H = unat (height src)" and "X = unat x"
    and "Y = unat y" and "CW = unat cw" and "CH = unat ch"
  note defs = W_def H_def X_def Y_def CW_def CH_def
  have sz1: "unat cw * unat ch < 2 ^ 32" using sz by linarith
  have small1: "unat (width src) * unat (height src) < 2 ^ 32" using small by linarith
  have n1: "unat (cw * ch) = CW * CH" using sz1 by (simp add: unat_mult_nowrap defs)
  have "unat (cw * ch) * unat (4 :: u32) < 2 ^ 32" using sz unfolding n1 defs by simp
  then have "unat (cw * ch * 4) = unat (cw * ch) * unat (4 :: u32)" by (rule unat_mult_nowrap)
  then have n4: "unat (cw * ch * 4) = CW * CH * 4" unfolding n1 by simp
  have ld: "length (data src) = W * H * 4" using wf by (simp add: wf_Image_def defs)
  from fill_loop_ok [of "replicate (CW * CH * 4) 0" "CW * CH * 4" 0 transparent_color]
  obtain filled where
    F: "fill_loop transparent_color (CW * CH * 4) 0 (replicate (CW * CH * 4) 0) = Inr filled" and
    lf: "length filled = CW * CH * 4" and
    cf: "\<forall>k<CW * CH * 4. filled ! k = channel transparent_color (k mod 4)"
    by auto
  have F': "fill_loop transparent_color (unat (cw * ch * 4)) 0 (replicate (unat (cw * ch * 4)) 0) = Inr filled"
    unfolding n4 by (rule F)
  have blank: "\<And>row col c. row < CH \<Longrightarrow> col < CW \<Longrightarrow> c < 4 \<Longrightarrow>
                 filled ! ((row * CW + col) * 4 + c) = channel transparent_color c"
  proof -
    fix row col c :: nat assume a: "row < CH" "col < CW" "c < 4"
    from cell_lt [OF a] cf have "filled ! ((row * CW + col) * 4 + c) =
       channel transparent_color (((row * CW + col) * 4 + c) mod 4)" by blast
    also have "((row * CW + col) * 4 + c) mod 4 = c" using a(3) by (rule mod4_cell)
    finally show "filled ! ((row * CW + col) * 4 + c) = channel transparent_color c" .
  qed
  have zero: "\<And>row col. row < CH \<Longrightarrow> col < CW \<Longrightarrow>
                 replicate (CW * CH) (0 :: index_t) ! (row * CW + col) = 0"
  proof -
    fix row col :: nat assume a: "row < CH" "col < CW"
    from cell_lt [OF a, of 0 1] show "replicate (CW * CH) (0 :: index_t) ! (row * CW + col) = 0" by simp
  qed
  show ?thesis
  proof (cases "x > width src \<or> y > height src")
    case True
    then have out: "\<And>row col. \<not> (Y + row < H \<and> X + col < W)"
      by (auto simp add: defs word_less_nat_alt)
    show ?thesis
    proof (rule crop_assemble [OF crop_unfold_outside [OF F' True]], goal_cases)
      case 1 show ?case using lf by (simp only: defs)
    next
      case 2 show ?case by (simp add: n1 defs)
    next
      case (3 row col c)
      then show ?case using blank [of row col c] out [of row col] by (simp only: defs [symmetric] if_False)
    next
      case (4 row col)
      then have a: "row < CH" "col < CW" and i: "indexed_data src \<noteq> []" by (simp_all add: defs)
      show ?case unfolding n1 using i zero [OF a] out [of row col] by (auto simp add: defs [symmetric])
    qed
  next
    case False
    then have ins: "x \<le> width src" "y \<le> height src" by (simp_all add: not_less)
    have u4: "unat (4 :: u32) = 4" by simp
    from crop_rows [of 4 "width src" "height src" cw ch x y "data src" filled]
      small sz xw yh ins ld lf
    obtain copied where
      C1: "copy_rows (\<lambda>iy. unat (iy * cw * 4)) (\<lambda>iy. unat (x * 4 + (iy + y) * width src * 4))
                (unat ((if x + cw > width src then width src - x else cw) * 4)) (data src)
                (if y + ch > height src then height src - y else ch) 0 filled = Inr copied" and
      lc: "length copied = length filled" and
      cc: "\<forall>row<CH. \<forall>col<CW. \<forall>c<4.
                 copied ! ((row * CW + col) * 4 + c) =
                   (if Y + row < H \<and> X + col < W
                    then data src ! (((Y + row) * W + (X + col)) * 4 + c)
                    else filled ! ((row * CW + col) * 4 + c))"
      unfolding u4 defs [symmetric] by auto
    have dcells: "\<And>row col c. row < CH \<Longrightarrow> col < CW \<Longrightarrow> c < 4 \<Longrightarrow>
                 copied ! ((row * CW + col) * 4 + c) =
                   (if Y + row < H \<and> X + col < W
                    then data src ! (((Y + row) * W + (X + col)) * 4 + c)
                    else channel transparent_color c)"
    proof -
      fix row col c :: nat assume a: "row < CH" "col < CW" "c < 4"
      with cc have "copied ! ((row * CW + col) * 4 + c) =
                   (if Y + row < H \<and> X + col < W
                    then data src ! (((Y + row) * W + (X + col)) * 4 + c)
                    else filled ! ((row * CW + col) * 4 + c))" by blast
      then show "copied ! ((row * CW + col) * 4 + c) =
                   (if Y + row < H \<and> X + col < W
                    then data src ! (((Y + row) * W + (X + col)) * 4 + c)
                    else channel transparent_color c)"
        by (simp only: blank [OF a])
    qed
    show ?thesis
    proof (cases "indexed_data src = []")
      case True
      show ?thesis
      proof (rule crop_assemble [OF crop_unfold_plain [OF F' False C1 True]], goal_cases)
        case 1 show ?case using lc lf by (simp only: defs)
      next
        case 2 show ?case using True by simp
      next
        case (3 row col c)
        then show ?case using dcells [of row col c] by (simp only: defs [symmetric])
      next
        case (4 row col)
        with True show ?case by simp
      qed
    next
      case indexed: False
      with wf have li: "length (indexed_data src) = W * H" by (simp add: wf_Image_def defs)
      from crop_rows_index [of "width src" "height src" cw ch x y "indexed_data src"
          "replicate (unat (cw * ch)) 0"] small1 sz1 xw yh ins li n1
      obtain ix where
        C2: "copy_rows (\<lambda>iy. unat (iy * cw)) (\<lambda>iy. unat (x + (iy + y) * width src))
                (unat (if x + cw > width src then width src - x else cw)) (indexed_data src)
                (if y + ch > height src then height src - y else ch) 0
                (replicate (unat (cw * ch)) 0) = Inr ix" and
        li': "length ix = CW * CH" and
        ci: "\<forall>row<CH. \<forall>col<CW.
                 ix ! (row * CW + col) =
                   (if Y + row < H \<and> X + col < W
                    then indexed_data src ! ((Y + row) * W + (X + col))
                    else replicate (CW * CH) 0 ! (row * CW + col))"
        unfolding defs [symmetric] by auto
      show ?thesis
      proof (rule crop_assemble [OF crop_unfold_indexed [OF F' False C1 C2 indexed]], goal_cases)
        case 1 show ?case using lc lf by (simp only: defs)
      next
        case 2 show ?case using indexed li' by (simp add: defs)
      next
        case (3 row col c)
        then show ?case using dcells [of row col c] by (simp only: defs [symmetric])
      next
        case (4 row col)
        then have a: "row < CH" "col < CW" by (simp_all only: defs)
        with ci have "ix ! (row * CW + col) =
                   (if Y + row < H \<and> X + col < W
                    then indexed_data src ! ((Y + row) * W + (X + col))
                    else replicate (CW * CH) 0 ! (row * CW + col))" by blast
        then show ?case by (simp only: zero [OF a] defs [symmetric])
      qed
    qed
  qed
qed

text \<open>
  C5 (as amended).  For a source bitmap that satisfies the buffer-length invariant
  and arguments for which none of the 32-bit computations of \<^verbatim>\<open>crop\<close> wraps around
  (\<open>width * height * 4\<close>, \<open>x + crop_width\<close>, \<open>y + crop_height\<close> and
  \<open>crop_width * crop_height * 4\<close> all stay below \<open>2 ^ 32\<close>), \<^verbatim>\<open>crop\<close> returns a
  bitmap of exactly \<open>crop_width\<close> by \<open>crop_height\<close> pixels with the source's palette.
  Unless \<open>x > width\<close> or \<open>y > height\<close>, the cell in row \<open>row\<close> and column \<open>col\<close> with
  \<open>row < min crop_height (height - y)\<close> and \<open>col < min crop_width (width - x)\<close> holds
  the RGBA bytes (and, when the source has index data, the index) of the source cell
  \<open>(y + row, x + col)\<close>; every other cell holds the bytes of \<open>transparent_color\<close> and
  the index zero.  The index buffer of the result is empty exactly when the
  source's is.
\<close>

theorem crop_within_32_bits:
  assumes wf: "wf_Image src"
    and small: "unat (width src) * unat (height src) * 4 < 2 ^ 32"
    and xw: "unat x + unat crop_width < 2 ^ 32"
    and yh: "unat y + unat crop_height < 2 ^ 32"
    and sz: "unat crop_width * unat crop_height * 4 < 2 ^ 32"
  shows "\<exists>img. crop src x y crop_width crop_height = Inr img \<and>
           width img = crop_width \<and> height img = crop_height \<and> palette img = palette src \<and>
           length (data img) = unat crop_width * unat crop_height * 4 \<and>
           length (indexed_data img) =
             (if indexed_data src = [] then 0 else unat crop_width * unat crop_height) \<and>
           (\<forall>row<unat crop_height. \<forall>col<unat crop_width.
              (let copied = (\<not> (x > width src \<or> y > height src) \<and>
                             row < min (unat crop_height) (unat (height src) - unat y) \<and>
                             col < min (unat crop_width) (unat (width src) - unat x))
               in (\<forall>c<4. data img ! ((row * unat crop_width + col) * 4 + c) =
                     (if copied
                      then data src ! (((unat y + row) * unat (width src) + (unat x + col)) * 4 + c)
                      else channel transparent_color c)) \<and>
                  (indexed_data src \<noteq> [] \<longrightarrow>
                     indexed_data img ! (row * unat crop_width + col) =
                     (if copied
                      then indexed_data src ! ((unat y + row) * unat (width src) + (unat x + col))
                      else 0))))"
proof -
  have region: "\<And>row col. row < unat crop_height \<Longrightarrow> col < unat crop_width \<Longrightarrow>
      (\<not> (x > width src \<or> y > height src) \<and>
        row < min (unat crop_height) (unat (height src) - unat y) \<and>
        col < min (unat crop_width) (unat (width src) - unat x)) \<longleftrightarrow>
      (unat y + row < unat (height src) \<and> unat x + col < unat (width src))"
    by (auto simp add: word_less_nat_alt)
  from crop_spec [OF assms] obtain img where
    r: "crop src x y crop_width crop_height = Inr img" and
    f: "width img = crop_width" "height img = crop_height" "palette img = palette src"
       "length (data img) = unat crop_width * unat crop_height * 4"
       "length (indexed_data img) =
             (if indexed_data src = [] then 0 else unat crop_width * unat crop_height)" and
    c: "\<forall>row<unat crop_height. \<forall>col<unat crop_width.
              (\<forall>c<4. data img ! ((row * unat crop_width + col) * 4 + c) =
                 (if unat y + row < unat (height src) \<and> unat x + col < unat (width src)
                  then data src ! (((unat y + row) * unat (width src) + (unat x + col)) * 4 + c)
                  else channel transparent_color c)) \<and>
              (indexed_data src \<noteq> [] \<longrightarrow>
                 indexed_data img ! (row * unat crop_width + col) =
                 (if unat y + row < unat (height src) \<and> unat x + col < unat (width src)
                  then indexed_data src ! ((unat y + row) * unat (width src) + (unat x + col))
                  else 0))"
    by blast
  show ?thesis
  proof (intro exI [of _ img] conjI allI impI)
    fix row col assume rc: "row < unat crop_height" "col < unat crop_width"
    from c rc have "(\<forall>c<4. data img ! ((row * unat crop_width + col) * 4 + c) =
                 (if unat y + row < unat (height src) \<and> unat x + col < unat (width src)
                  then data src ! (((unat y + row) * unat (width src) + (unat x + col)) * 4 + c)
                  else channel transparent_color c)) \<and>
              (indexed_data src \<noteq> [] \<longrightarrow>
                 indexed_data img ! (row * unat crop_width + col) =
                 (if unat y + row < unat (height src) \<and> unat x + col < unat (width src)
                  then indexed_data src ! ((unat y + row) * unat (width src) + (unat x + col))
                  else 0))" by blast
    then show "let copied = (\<not> (x > width src \<or> y > height src) \<and>
                             row < min (unat crop_height) (unat (height src) - unat y) \<and>
                             col < min (unat crop_width) (unat (width src) - unat x))
               in (\<forall>c<4. data img ! ((row * unat crop_width + col) * 4 + c) =
                     (if copied
                      then data src ! (((unat y + row) * unat (width src) + (unat x + col)) * 4 + c)
                      else channel transparent_color c)) \<and>
                  (indexed_data src \<noteq> [] \<longrightarrow>
                     indexed_data img ! (row * unat crop_width + col) =
                     (if copied
                      then indexed_data src ! ((unat y + row) * unat (width src) + (unat x + col))
                      else 0))"
      unfolding Let_def region [OF rc] .
  qed (fact r f)+
qed

theorem crop_within_32_bits_witness:
  "wf_Image img_2x2 \<and>
   (\<exists>img. crop img_2x2 1 0 2 2 = Inr img \<and> width img = 2 \<and> height img = 2 \<and>
      palette img = [7] \<and> length (data img) = 16 \<and> length (indexed_data img) = 4 \<and>
      data img ! 0 = 5 \<and> data img ! 4 = 0 \<and> indexed_data img ! 0 = 2 \<and> indexed_data img ! 1 = 0)"
proof -
  have wf: "wf_Image img_2x2" by (simp add: wf_Image_def img_2x2_def)
  have h: "unat (width img_2x2) * unat (height img_2x2) * 4 < 2 ^ 32"
    "unat (1 :: u32) + unat (2 :: u32) < 2 ^ 32" "unat (0 :: u32) + unat (2 :: u32) < 2 ^ 32"
    "unat (2 :: u32) * unat (2 :: u32) * 4 < 2 ^ 32"
    by (simp_all add: img_2x2_def)
  from crop_within_32_bits [OF wf h] obtain img where
    r: "crop img_2x2 1 0 2 2 = Inr img" and
    f: "width img = 2" "height img = 2" "palette img = palette img_2x2"
       "length (data img) = unat (2 :: u32) * unat (2 :: u32) * 4"
       "length (indexed_data img) = (if indexed_data img_2x2 = [] then 0 else unat (2 :: u32) * unat (2 :: u32))" and
    c: "\<forall>row<unat (2 :: u32). \<forall>col<unat (2 :: u32).
              (let copied = (\<not> (1 > width img_2x2 \<or> 0 > height img_2x2) \<and>
                             row < min (unat (2 :: u32)) (unat (height img_2x2) - unat (0 :: u32)) \<and>
                             col < min (unat (2 :: u32)) (unat (width img_2x2) - unat (1 :: u32)))
               in (\<forall>c<4. data img ! ((row * unat (2 :: u32) + col) * 4 + c) =
                     (if copied
                      then data img_2x2 ! (((unat (0 :: u32) + row) * unat (width img_2x2) + (unat (1 :: u32) + col)) * 4 + c)
                      else channel transparent_color c)) \<and>
                  (indexed_data img_2x2 \<noteq> [] \<longrightarrow>
                     indexed_data img ! (row * unat (2 :: u32) + col) =
                     (if copied
                      then indexed_data img_2x2 ! ((unat (0 :: u32) + row) * unat (width img_2x2) + (unat (1 :: u32) + col))
                      else 0)))"
    by blast
  from c [rule_format, of 0 0]
  have "(\<forall>c<4. data img ! (0 + c) = data img_2x2 ! (4 + c)) \<and> indexed_data img ! 0 = 2"
    by (simp add: img_2x2_def Let_def)
  then have a0: "\<forall>c<4. data img ! (0 + c) = data img_2x2 ! (4 + c)" and i0: "indexed_data img ! 0 = 2"
    by simp_all
  from a0 [rule_format, of 0] have c00: "data img ! 0 = 5" by (simp add: img_2x2_def)
  from c [rule_format, of 0 1]
  have "(\<forall>c<4. data img ! (4 + c) = channel transparent_color c) \<and> indexed_data img ! 1 = 0"
    by (simp add: img_2x2_def Let_def)
  then have a1: "\<forall>c<4. data img ! (4 + c) = channel transparent_color c" and i1: "indexed_data img ! 1 = 0"
    by simp_all
  from a1 [rule_format, of 0] have c01: "data img ! 4 = 0" by (simp add: channel_def transparent_color_def)
  from wf r f c00 c01 i0 i1 show ?thesis by (simp add: img_2x2_def)
qed


text \<open>
  Without the bounds the claim fails: on a 1 by 1 bitmap, \<^verbatim>\<open>crop(0, 0, 2, 0x40000000)\<close>
  sizes the new pixel buffer with \<open>2 * 0x40000000 * 4\<close>, which is zero in 32 bits,
  and then copies the four bytes of the source pixel into that empty buffer.
\<close>

theorem crop_overflow_counterexample:
  "crop img_1x1 0 0 2 0x40000000 = Inl OutOfBounds"
  by (simp add: crop_def Let_def Image_default_def img_1x1_def fill_loop.simps
      copy_rows.simps memcpy_def)

section \<open>Properties of tile-grid slicing\<close>

subsection \<open>The only failure inside the loops is an out-of-bounds copy\<close>

lemma fill_loop_error: "fill_loop v n i d = Inl e \<Longrightarrow> e = OutOfBounds"
proof (induction v n i d rule: fill_loop.induct)
  case (1 v n i d)
  from "1.prems" show ?case
    by (subst (asm) fill_loop.simps) (auto split: if_splits sum.splits dest: memcpy_error "1.IH")
qed

lemma copy_rows_error: "copy_rows doff soff n src bh iy dst = Inl e \<Longrightarrow> e = OutOfBounds"
proof (induction doff soff n src bh iy dst rule: copy_rows.induct)
  case (1 doff soff n src bh iy dst)
  from "1.prems" show ?case
    by (subst (asm) copy_rows.simps) (auto split: if_splits sum.splits dest: memcpy_error "1.IH")
qed

lemma crop_error: "crop src x y cw ch = Inl e \<Longrightarrow> e = OutOfBounds"
  by (auto simp add: crop_def Let_def split: sum.splits if_splits
      dest: fill_loop_error copy_rows_error)

lemma walk_row_error:
  assumes "walk_row f img tw th y x v = Some r"
  shows "\<forall>e. r = Inl e \<longrightarrow> e = OutOfBounds"
proof -
  let ?P = "\<lambda>(f :: Image \<Rightarrow> 'a) (img :: Image) (tw :: u32) (th :: u32) (y :: u32) (x :: u32)
              (v :: 'a list) (r :: error + 'a list). \<forall>e. r = Inl e \<longrightarrow> e = OutOfBounds"
  have "?P f img tw th y x v r"
  proof (rule walk_row.raw_induct [where P = ?P and xa = "((((((f, img), tw), th), y), x), v)"
        and ya = r, unfolded prod.case], goal_cases)
    case (1 g f img tw th y x v r)
    show ?case
    proof (intro allI impI)
      fix e assume r: "r = Inl e"
      show "e = OutOfBounds"
      proof (cases "x < width img")
        case False
        with 1(2) r show ?thesis by simp
      next
        case True
        show ?thesis
        proof (cases "crop img x y tw th")
          case (Inl e')
          with True 1(2) r crop_error [OF Inl] show ?thesis by simp
        next
          case (Inr c)
          with True 1(2) r have "g f img tw th y (x + tw) (v @ [f c]) = Some (Inl e)" by simp
          from 1(1) [OF this] show ?thesis by simp
        qed
      qed
    qed
  next
    case 2
    show ?case using assms by simp
  qed
  then show ?thesis .
qed

lemma walk_rows_error:
  assumes "walk_rows f img tw th x y v = Some r"
  shows "\<forall>e. r = Inl e \<longrightarrow> e = OutOfBounds"
proof -
  let ?P = "\<lambda>(f :: Image \<Rightarrow> 'a) (img :: Image) (tw :: u32) (th :: u32) (x :: u32) (y :: u32)
              (v :: 'a list) (r :: error + 'a list). \<forall>e. r = Inl e \<longrightarrow> e = OutOfBounds"
  have "?P f img tw th x y v r"
  proof (rule walk_rows.raw_induct [where P = ?P and xa = "((((((f, img), tw), th), x), y), v)"
        and ya = r, unfolded prod.case], goal_cases)
    case (1 g f img tw th x y v r)
    show ?case
    proof (intro allI impI)
      fix e assume r: "r = Inl e"
      show "e = OutOfBounds"
      proof (cases "y < height img")
        case False
        with 1(2) r show ?thesis by simp
      next
        case True
        show ?thesis
        proof (cases "walk_row f img tw th y x v")
          case None
          with True 1(2) show ?thesis by simp
        next
          case (Some r')
          show ?thesis
          proof (cases r')
            case (Inl e')
            with Some True 1(2) r walk_row_error [OF Some] show ?thesis by simp
          next
            case (Inr v')
            with Some True 1(2) r have "g f img tw th 0 (y + tw) v' = Some (Inl e)" by simp
            from 1(1) [OF this] show ?thesis by simp
          qed
        qed
      qed
    qed
  next
    case 2
    show ?case using assms by simp
  qed
  then show ?thesis .
qed


subsection \<open>Termination and the number of tiles\<close>

lemma ceil_step:
  fixes D T :: nat
  assumes "0 < D" "0 < T"
  shows "(D + T - 1) div T = Suc ((D - T + T - 1) div T)"
proof -
  have "D + T - 1 = (D - 1) + T" using assms by arith
  then have "(D + T - 1) div T = ((D - 1) + T) div T" by (rule arg_cong)
  also have "\<dots> = Suc ((D - 1) div T)" using assms(2) by (simp add: div_add_self2)
  finally have lhs: "(D + T - 1) div T = Suc ((D - 1) div T)" .
  have "(D - T + T - 1) div T = (D - 1) div T"
  proof (cases "T \<le> D")
    case True
    then have "D - T + T - 1 = D - 1" by arith
    then show ?thesis by (rule arg_cong)
  next
    case False
    then have "D - T + T - 1 = T - 1" by arith
    then have "(D - T + T - 1) div T = (T - 1) div T" by (rule arg_cong)
    moreover have "(T - 1) div T = 0" using assms(2) by simp
    moreover have "(D - 1) div T = 0" using False assms by simp
    ultimately show ?thesis by simp
  qed
  with lhs show ?thesis by simp
qed


lemma walk_row_returns:
  assumes crop_ok: "\<And>x'. x' < width img \<Longrightarrow> \<exists>c. crop img x' y tw th = Inr c"
    and tw: "0 < unat tw"
    and nowrap: "unat (width img) + unat tw \<le> 2 ^ 32"
  shows "\<exists>v'. walk_row f img tw th y x v = Some (Inr v') \<and>
           length v' = length v + (unat (width img) - unat x + unat tw - 1) div unat tw"
proof (induction "unat (width img) - unat x" arbitrary: x v rule: less_induct)
  case less
  show ?case
  proof (cases "x < width img")
    case False
    then have "unat (width img) - unat x = 0" by (simp add: word_less_nat_alt)
    moreover from False have "walk_row f img tw th y x v = Some (Inr v)"
      by (subst walk_row.simps) simp
    ultimately show ?thesis using tw by simp
  next
    case True
    then have lt: "unat x < unat (width img)" by (simp add: word_less_nat_alt)
    from crop_ok [OF True] obtain c where c: "crop img x y tw th = Inr c" by blast
    have step: "walk_row f img tw th y x v = walk_row f img tw th y (x + tw) (v @ [f c])"
      using True c by (subst walk_row.simps) simp
    from lt nowrap have "unat x + unat tw < 2 ^ 32" by simp
    then have u: "unat (x + tw) = unat x + unat tw" by (rule unat_add_nowrap)
    from lt tw have "unat (width img) - unat (x + tw) < unat (width img) - unat x"
      unfolding u by simp
    from less [OF this, of "v @ [f c]"] obtain v' where
      r: "walk_row f img tw th y (x + tw) (v @ [f c]) = Some (Inr v')" and
      l: "length v' = length (v @ [f c]) +
            (unat (width img) - unat (x + tw) + unat tw - 1) div unat tw"
      by blast
    have "unat (width img) - unat (x + tw) = unat (width img) - unat x - unat tw"
      unfolding u by simp
    with l ceil_step [of "unat (width img) - unat x" "unat tw"] lt tw
    have "length v' = length v + (unat (width img) - unat x + unat tw - 1) div unat tw"
      by simp
    with step r show ?thesis by simp
  qed
qed

lemma walk_rows_returns:
  assumes crop_ok: "\<And>x' y'. x' < width img \<Longrightarrow> y' < height img \<Longrightarrow>
                      \<exists>c. crop img x' y' tw th = Inr c"
    and tw: "0 < unat tw"
    and nowrap_x: "unat (width img) + unat tw \<le> 2 ^ 32"
    and nowrap_y: "unat (height img) + unat tw \<le> 2 ^ 32"
  shows "\<exists>v'. walk_rows f img tw th 0 y v = Some (Inr v') \<and>
           length v' = length v +
             ((unat (height img) - unat y + unat tw - 1) div unat tw) *
             ((unat (width img) + unat tw - 1) div unat tw)"
proof (induction "unat (height img) - unat y" arbitrary: y v rule: less_induct)
  case less
  show ?case
  proof (cases "y < height img")
    case False
    then have "unat (height img) - unat y = 0" by (simp add: word_less_nat_alt)
    moreover from False have "walk_rows f img tw th 0 y v = Some (Inr v)"
      by (subst walk_rows.simps) simp
    ultimately show ?thesis using tw by simp
  next
    case True
    then have lt: "unat y < unat (height img)" by (simp add: word_less_nat_alt)
    from walk_row_returns [of img y tw th f 0 v, OF crop_ok [OF _ True] tw nowrap_x]
    obtain v1 where
      r1: "walk_row f img tw th y 0 v = Some (Inr v1)" and
      l1: "length v1 = length v + (unat (width img) + unat tw - 1) div unat tw"
      by auto
    have step: "walk_rows f img tw th 0 y v = walk_rows f img tw th 0 (y + tw) v1"
      using True r1 by (subst walk_rows.simps) simp
    from lt nowrap_y have "unat y + unat tw < 2 ^ 32" by simp
    then have u: "unat (y + tw) = unat y + unat tw" by (rule unat_add_nowrap)
    from lt tw have "unat (height img) - unat (y + tw) < unat (height img) - unat y"
      unfolding u by simp
    from less [OF this, of v1] obtain v' where
      r: "walk_rows f img tw th 0 (y + tw) v1 = Some (Inr v')" and
      l: "length v' = length v1 +
            ((unat (height img) - unat (y + tw) + unat tw - 1) div unat tw) *
            ((unat (width img) + unat tw - 1) div unat tw)"
      by blast
    have "unat (height img) - unat (y + tw) = unat (height img) - unat y - unat tw"
      unfolding u by simp
    with l l1 ceil_step [of "unat (height img) - unat y" "unat tw"] lt tw
    have "length v' = length v +
             ((unat (height img) - unat y + unat tw - 1) div unat tw) *
             ((unat (width img) + unat tw - 1) div unat tw)"
      by simp
    with step r show ?thesis by simp
  qed
qed

lemma walk_row_stuck:
  assumes "walk_row f img tw th y x v = Some r"
  shows "\<not> (tw = 0 \<and> x < width img \<and> (\<exists>c. crop img x y tw th = Inr c))"
proof -
  let ?P = "\<lambda>(f :: Image \<Rightarrow> 'a) (img :: Image) (tw :: u32) (th :: u32) (y :: u32) (x :: u32)
              (v :: 'a list) (r :: error + 'a list).
              \<not> (tw = 0 \<and> x < width img \<and> (\<exists>c. crop img x y tw th = Inr c))"
  have "?P f img tw th y x v r"
  proof (rule walk_row.raw_induct [where P = ?P and xa = "((((((f, img), tw), th), y), x), v)"
        and ya = r, unfolded prod.case], goal_cases)
    case (1 g f img tw th y x v r)
    show ?case
    proof
      assume a: "tw = 0 \<and> x < width img \<and> (\<exists>c. crop img x y tw th = Inr c)"
      then obtain c where c: "crop img x y tw th = Inr c" by blast
      with a 1(2) have "g f img tw th y x (v @ [f c]) = Some r" by simp
      from 1(1) [OF this] a show False by blast
    qed
  next
    case 2
    show ?case using assms by simp
  qed
  then show ?thesis .
qed


text \<open>
  C10 (as amended).  On a bitmap whose buffers have the lengths of the data model
  (the pixel buffer holds \<open>width * height * 4\<close> bytes, the index buffer is empty or
  holds \<open>width * height\<close> indices) and tile sizes for which the 32-bit computations do not wrap around
  (\<open>width * height * 4 < 2 ^ 32\<close>, \<open>width + tile_width \<le> 2 ^ 32\<close>,
  \<open>height + tile_width \<le> 2 ^ 32\<close>, \<open>height + tile_height \<le> 2 ^ 32\<close> and
  \<open>tile_width * tile_height * 4 < 2 ^ 32\<close>), \<^verbatim>\<open>crops\<close> with \<open>tile_width \<ge> 1\<close> returns
  exactly \<open>\<lceil>width / tile_width\<rceil> * \<lceil>height / tile_width\<rceil>\<close> sub-bitmaps, whatever
  \<open>tile_height\<close> is; with \<open>tile_width = 0\<close> on a bitmap of non-zero width and height
  it does not return.
\<close>

theorem crops_count:
  assumes wf: "wf_Image img"
    and small: "unat (width img) * unat (height img) * 4 < 2 ^ 32"
    and nowrap_h: "unat (height img) + unat tile_height \<le> 2 ^ 32"
  shows "(1 \<le> unat tile_width \<and>
          unat (width img) + unat tile_width \<le> 2 ^ 32 \<and>
          unat (height img) + unat tile_width \<le> 2 ^ 32 \<and>
          unat tile_width * unat tile_height * 4 < 2 ^ 32 \<longrightarrow>
          (\<exists>v. crops img tile_width tile_height = Some (Inr v) \<and>
             length v = div_ceil (unat (width img)) (unat tile_width) *
                        div_ceil (unat (height img)) (unat tile_width))) \<and>
         (tile_width = 0 \<and> 0 < width img \<and> 0 < height img \<longrightarrow>
          crops img tile_width tile_height = None)"
proof (intro conjI impI)
  assume a: "1 \<le> unat tile_width \<and>
          unat (width img) + unat tile_width \<le> 2 ^ 32 \<and>
          unat (height img) + unat tile_width \<le> 2 ^ 32 \<and>
          unat tile_width * unat tile_height * 4 < 2 ^ 32"
  then have tw0: "0 < unat tile_width"
    and nowrap_x: "unat (width img) + unat tile_width \<le> 2 ^ 32"
    and nowrap_y: "unat (height img) + unat tile_width \<le> 2 ^ 32"
    and sz: "unat tile_width * unat tile_height * 4 < 2 ^ 32" by simp_all
  have crop_ok: "\<And>x' y'. x' < width img \<Longrightarrow> y' < height img \<Longrightarrow>
                      \<exists>c. crop img x' y' tile_width tile_height = Inr c"
  proof -
    fix x' y' assume "x' < width img" "y' < height img"
    then have "unat x' < unat (width img)" "unat y' < unat (height img)"
      by (simp_all add: word_less_nat_alt)
    with nowrap_x nowrap_h have "unat x' + unat tile_width < 2 ^ 32"
      "unat y' + unat tile_height < 2 ^ 32" by simp_all
    from crop_spec [OF wf small this sz]
    show "\<exists>c. crop img x' y' tile_width tile_height = Inr c" by blast
  qed
  from walk_rows_returns [of img tile_width tile_height "\<lambda>c. c" 0 "[]", OF crop_ok tw0 nowrap_x nowrap_y]
  show "\<exists>v. crops img tile_width tile_height = Some (Inr v) \<and>
             length v = div_ceil (unat (width img)) (unat tile_width) *
                        div_ceil (unat (height img)) (unat tile_width)"
    by (simp add: crops_def div_ceil_def mult.commute)
next
  assume a: "tile_width = 0 \<and> 0 < width img \<and> 0 < height img"
  then have "unat (0 :: u32) + unat tile_width < 2 ^ 32" "unat (0 :: u32) + unat tile_height < 2 ^ 32"
    "unat tile_width * unat tile_height * 4 < 2 ^ 32"
    using unat_lt32 [of tile_height] by simp_all
  from crop_spec [OF wf small this]
  have c: "\<exists>c. crop img 0 0 tile_width tile_height = Inr c" by blast
  have "walk_row (\<lambda>c. c) img tile_width tile_height 0 0 [] = None"
  proof (cases "walk_row (\<lambda>c. c) img tile_width tile_height 0 0 []")
    case (Some r)
    from walk_row_stuck [OF Some] a c show ?thesis by simp
  qed
  with a show "crops img tile_width tile_height = None"
    unfolding crops_def by (subst walk_rows.simps) simp
qed

theorem crops_count_witness:
  "wf_Image img_2x2 \<and>
   (\<exists>v. crops img_2x2 1 0 = Some (Inr v) \<and> length v = 4) \<and>
   (\<exists>v. crops img_2x2 1 3 = Some (Inr v) \<and> length v = 4) \<and>
   crops img_2x2 0 0 = None"
proof -
  have wf: "wf_Image img_2x2" by (simp add: wf_Image_def img_2x2_def)
  have h: "unat (width img_2x2) * unat (height img_2x2) * 4 < 2 ^ 32"
    by (simp add: img_2x2_def)
  have h0: "unat (height img_2x2) + unat (0 :: u32) \<le> 2 ^ 32"
    and h3: "unat (height img_2x2) + unat (3 :: u32) \<le> 2 ^ 32"
    by (simp_all add: img_2x2_def)
  have n: "div_ceil (unat (width img_2x2)) (unat (1 :: u32)) *
           div_ceil (unat (height img_2x2)) (unat (1 :: u32)) = 4"
    by (simp add: div_ceil_def img_2x2_def)
  have p: "0 < width img_2x2" "0 < height img_2x2" by (simp_all add: img_2x2_def)
  from crops_count [OF wf h h0, of 1] crops_count [OF wf h h3, of 1]
    crops_count [OF wf h h0, of 0] wf p
  show ?thesis unfolding n by (simp add: img_2x2_def)
qed


text \<open>
  Without the bounds the cursors wrap around and the claim fails: on a bitmap of
  width 0 and height \<open>0xFFFFFFFF\<close> (its pixel buffer is empty, as the invariant
  asks) the row cursor of \<^verbatim>\<open>crops(0x80000000, 0)\<close> alternates between 0 and
  \<open>0x80000000\<close> for ever.  And the index buffer has to have its length too: the
  bitmap that the decode constructor builds from a 4-bit palette file, two pixels
  wide, has a pixel buffer of eight bytes and an index buffer of one byte, and
  \<^verbatim>\<open>crops(2, 1)\<close> copies a row of two index bytes out of it.
\<close>

lemma walk_rows_wraps:
  assumes "walk_rows f img tw th x y v = Some r"
  shows "\<not> (img = img_0_by_max \<and> tw = 0x80000000 \<and> x = 0 \<and> (y = 0 \<or> y = 0x80000000))"
proof -
  let ?P = "\<lambda>(f :: Image \<Rightarrow> 'a) (img :: Image) (tw :: u32) (th :: u32) (x :: u32) (y :: u32)
              (v :: 'a list) (r :: error + 'a list).
              \<not> (img = img_0_by_max \<and> tw = 0x80000000 \<and> x = 0 \<and> (y = 0 \<or> y = 0x80000000))"
  have "?P f img tw th x y v r"
  proof (rule walk_rows.raw_induct [where P = ?P and xa = "((((((f, img), tw), th), x), y), v)"
        and ya = r, unfolded prod.case], goal_cases)
    case (1 g f img tw th x y v r)
    show ?case
    proof
      assume a: "img = img_0_by_max \<and> tw = 0x80000000 \<and> x = 0 \<and> (y = 0 \<or> y = 0x80000000)"
      then have lt: "y < height img" by (auto simp add: img_0_by_max_def)
      from a have "walk_row f img tw th y x v = Some (Inr v)"
        by (subst walk_row.simps) (simp add: img_0_by_max_def)
      with lt 1(2) have "g f img tw th 0 (y + tw) v = Some r" by simp
      from 1(1) [OF this] a show False by auto
    qed
  next
    case 2
    show ?case using assms by simp
  qed
  then show ?thesis .
qed

lemma crop_img_pal4: "crop img_pal4 0 0 2 1 = Inl OutOfBounds"
  by (simp add: crop_def Let_def Image_default_def img_pal4_def fill_loop.simps
      copy_rows.simps memcpy_def object_bytes_def transparent_color_def)

theorem crops_wraps_counterexample:
  "1 \<le> unat (0x80000000 :: u32) \<and> crops img_0_by_max 0x80000000 0 = None \<and>
   Image_from_file codec_pal4 ''c.png'' = Some (Inr img_pal4) \<and>
   length (data img_pal4) = unat (width img_pal4) * unat (height img_pal4) * 4 \<and>
   1 \<le> unat (2 :: u32) \<and> crops img_pal4 2 1 = Some (Inl OutOfBounds)"
proof -
  have a: "crops img_0_by_max 0x80000000 0 = None"
  proof (cases "crops img_0_by_max 0x80000000 0")
    case (Some r)
    from walk_rows_wraps [OF Some [unfolded crops_def]] show ?thesis by simp
  qed
  have "palette_loop [0, 0, 0, 255, 255, 255, 255, 255] 2 0 [] = Some (Inr [0xFF000000, 0xFFFFFFFF])"
    by (simp add: palette_loop.simps read_byte_def)
  then have b: "Image_from_file codec_pal4 ''c.png'' = Some (Inr img_pal4)"
    by (simp add: Image_from_file_def codec_pal4_def State_default_def mode_pal4_def Let_def
        palette_branch_def colortype_branch_def bitdepth_branch_def Image_default_def img_pal4_def)
  have w: "width img_pal4 = 2" "height img_pal4 = 1" "length (data img_pal4) = 8"
    by (simp_all add: img_pal4_def)
  have c: "crops img_pal4 2 1 = Some (Inl OutOfBounds)"
    by (simp add: crops_def walk_rows.simps walk_row.simps crop_img_pal4 w)
  from a b c w show ?thesis by simp
qed


subsection \<open>Slicing a bitmap without index data\<close>

lemma grid_walk_returns:
  assumes wf: "wf_Image img"
    and small: "unat (width img) * unat (height img) * 4 < 2 ^ 32"
    and tw0: "0 < unat tw"
    and nowrap_x: "unat (width img) + unat tw \<le> 2 ^ 32"
    and nowrap_y: "unat (height img) + unat tw \<le> 2 ^ 32"
    and nowrap_h: "unat (height img) + unat th \<le> 2 ^ 32"
    and sz: "unat tw * unat th * 4 < 2 ^ 32"
  shows "\<exists>v. walk_rows f img tw th 0 0 [] = Some (Inr v)"
proof -
  have crop_ok: "\<And>x' y'. x' < width img \<Longrightarrow> y' < height img \<Longrightarrow>
                      \<exists>c. crop img x' y' tw th = Inr c"
  proof -
    fix x' y' assume "x' < width img" "y' < height img"
    then have "unat x' < unat (width img)" "unat y' < unat (height img)"
      by (simp_all add: word_less_nat_alt)
    with nowrap_x nowrap_h have "unat x' + unat tw < 2 ^ 32" "unat y' + unat th < 2 ^ 32"
      by simp_all
    from crop_spec [OF wf small this sz]
    show "\<exists>c. crop img x' y' tw th = Inr c" by blast
  qed
  from walk_rows_returns [of img tw th f 0 "[]", OF crop_ok tw0 nowrap_x nowrap_y]
  show ?thesis by blast
qed

text \<open>
  C9 (as amended).  On a bitmap whose index buffer is empty, \<^verbatim>\<open>indexed_crops\<close> fails with
  the runtime error "No indexed data in image" for every tile size, also for one on
  which the grid walk would never end: the test comes before the first tile.
  \<^verbatim>\<open>crops\<close> and \<^verbatim>\<open>rgba_crops\<close> on the same bitmap return their lists of tiles, provided
  that the pixel buffer holds \<open>width * height * 4\<close> bytes, \<open>tile_width \<ge> 1\<close> and the
  32-bit computations do not wrap around (\<open>width * height * 4 < 2 ^ 32\<close>,
  \<open>width + tile_width \<le> 2 ^ 32\<close>, \<open>height + tile_width \<le> 2 ^ 32\<close>,
  \<open>height + tile_height \<le> 2 ^ 32\<close> and \<open>tile_width * tile_height * 4 < 2 ^ 32\<close>).
\<close>

theorem indexed_crops_needs_index_data:
  assumes "indexed_data img = []"
  shows "indexed_crops img tile_width tile_height =
           Some (Inl (RuntimeError ''No indexed data in image'')) \<and>
         (length (data img) = unat (width img) * unat (height img) * 4 \<and>
          unat (width img) * unat (height img) * 4 < 2 ^ 32 \<and>
          1 \<le> unat tile_width \<and>
          unat (width img) + unat tile_width \<le> 2 ^ 32 \<and>
          unat (height img) + unat tile_width \<le> 2 ^ 32 \<and>
          unat (height img) + unat tile_height \<le> 2 ^ 32 \<and>
          unat tile_width * unat tile_height * 4 < 2 ^ 32 \<longrightarrow>
          (\<exists>v. crops img tile_width tile_height = Some (Inr v)) \<and>
          (\<exists>v. rgba_crops to_rgba img tile_width tile_height = Some (Inr v)))"
proof (intro conjI impI)
  show "indexed_crops img tile_width tile_height =
           Some (Inl (RuntimeError ''No indexed data in image''))"
    using assms by (simp add: indexed_crops_def)
next
  assume b: "length (data img) = unat (width img) * unat (height img) * 4 \<and>
          unat (width img) * unat (height img) * 4 < 2 ^ 32 \<and>
          1 \<le> unat tile_width \<and>
          unat (width img) + unat tile_width \<le> 2 ^ 32 \<and>
          unat (height img) + unat tile_width \<le> 2 ^ 32 \<and>
          unat (height img) + unat tile_height \<le> 2 ^ 32 \<and>
          unat tile_width * unat tile_height * 4 < 2 ^ 32"
  with assms have wf: "wf_Image img" by (simp add: wf_Image_def)
  from b have small: "unat (width img) * unat (height img) * 4 < 2 ^ 32"
    and tw0: "0 < unat tile_width"
    and nx: "unat (width img) + unat tile_width \<le> 2 ^ 32"
    and ny: "unat (height img) + unat tile_width \<le> 2 ^ 32"
    and nh: "unat (height img) + unat tile_height \<le> 2 ^ 32"
    and sz: "unat tile_width * unat tile_height * 4 < 2 ^ 32" by simp_all
  from grid_walk_returns [OF wf small tw0 nx ny nh sz, of "\<lambda>c. c"]
  show "\<exists>v. crops img tile_width tile_height = Some (Inr v)" by (simp add: crops_def)
next
  assume b: "length (data img) = unat (width img) * unat (height img) * 4 \<and>
          unat (width img) * unat (height img) * 4 < 2 ^ 32 \<and>
          1 \<le> unat tile_width \<and>
          unat (width img) + unat tile_width \<le> 2 ^ 32 \<and>
          unat (height img) + unat tile_width \<le> 2 ^ 32 \<and>
          unat (height img) + unat tile_height \<le> 2 ^ 32 \<and>
          unat tile_width * unat tile_height * 4 < 2 ^ 32"
  with assms have wf: "wf_Image img" by (simp add: wf_Image_def)
  from b have small: "unat (width img) * unat (height img) * 4 < 2 ^ 32"
    and tw0: "0 < unat tile_width"
    and nx: "unat (width img) + unat tile_width \<le> 2 ^ 32"
    and ny: "unat (height img) + unat tile_width \<le> 2 ^ 32"
    and nh: "unat (height img) + unat tile_height \<le> 2 ^ 32"
    and sz: "unat tile_width * unat tile_height * 4 < 2 ^ 32" by simp_all
  from grid_walk_returns [OF wf small tw0 nx ny nh sz, of "\<lambda>c. to_rgba (data c)"]
  show "\<exists>v. rgba_crops to_rgba img tile_width tile_height = Some (Inr v)"
    by (simp add: rgba_crops_def)
qed

theorem indexed_crops_needs_index_data_witness:
  "indexed_data img_1x1 = [] \<and>
   indexed_crops img_1x1 1 1 = Some (Inl (RuntimeError ''No indexed data in image'')) \<and>
   indexed_crops img_1x1 0 0 = Some (Inl (RuntimeError ''No indexed data in image'')) \<and>
   crops img_1x1 1 1 = Some (Inr [img_1x1]) \<and>
   (\<exists>v. rgba_crops (\<lambda>d. []) img_1x1 1 1 = Some (Inr v))"
proof -
  have h: "indexed_data img_1x1 = []" by (simp add: img_1x1_def)
  have r: "crops img_1x1 1 1 = Some (Inr [img_1x1])" by code_simp
  have b: "length (data img_1x1) = unat (width img_1x1) * unat (height img_1x1) * 4 \<and>
          unat (width img_1x1) * unat (height img_1x1) * 4 < 2 ^ 32 \<and>
          1 \<le> unat (1 :: u32) \<and>
          unat (width img_1x1) + unat (1 :: u32) \<le> 2 ^ 32 \<and>
          unat (height img_1x1) + unat (1 :: u32) \<le> 2 ^ 32 \<and>
          unat (height img_1x1) + unat (1 :: u32) \<le> 2 ^ 32 \<and>
          unat (1 :: u32) * unat (1 :: u32) * 4 < 2 ^ 32"
    by (simp add: img_1x1_def)
  from indexed_crops_needs_index_data [OF h, of 1 1 "\<lambda>d. []"]
    indexed_crops_needs_index_data [OF h, of 0 0 "\<lambda>d. []"] b h r
  show ?thesis by simp
qed

text \<open>
  Without the bounds \<^verbatim>\<open>crops\<close> does fail on a bitmap without index data: on the 1 by 1
  bitmap, \<^verbatim>\<open>crops(2, 0x40000000)\<close> asks for a tile whose pixel buffer has
  \<open>2 * 0x40000000 * 4\<close> bytes, zero in 32 bits, and the copy of the first row runs out
  of it; and \<^verbatim>\<open>crops(0, 0)\<close> never advances its column cursor and does not return.
\<close>

theorem crops_fails_counterexample:
  "indexed_data img_1x1 = [] \<and>
   crops img_1x1 2 0x40000000 = Some (Inl OutOfBounds) \<and>
   crops img_1x1 0 0 = None"
proof -
  have h: "indexed_data img_1x1 = []" by (simp add: img_1x1_def)
  have w: "width img_1x1 = 1" "height img_1x1 = 1" by (simp_all add: img_1x1_def)
  have c: "crop img_1x1 0 0 2 0x40000000 = Inl OutOfBounds"
    by (simp add: crop_def Let_def Image_default_def img_1x1_def fill_loop.simps
        copy_rows.simps memcpy_def)
  have a: "crops img_1x1 2 0x40000000 = Some (Inl OutOfBounds)"
    by (simp add: crops_def walk_rows.simps walk_row.simps c w)
  have c0: "\<exists>c. crop img_1x1 0 0 0 0 = Inr c"
    by (simp add: crop_def Let_def Image_default_def img_1x1_def fill_loop.simps
        copy_rows.simps memcpy_def)
  have "walk_row (\<lambda>c. c) img_1x1 0 0 0 0 [] = None"
  proof (cases "walk_row (\<lambda>c. c) img_1x1 0 0 0 0 []")
    case (Some r)
    from walk_row_stuck [OF Some] c0 w show ?thesis by simp
  qed
  then have n: "crops img_1x1 0 0 = None"
    unfolding crops_def by (subst walk_rows.simps) (simp add: w)
  from h a n show ?thesis by simp
qed


subsection \<open>The row step\<close>

text \<open>
  C1 (the code at the failing input).  On a bitmap one pixel wide and two pixels
  high, with tiles one pixel wide and two pixels high, the walk of the
  specification visits the single position \<open>(0, 0)\<close>; the three functions of the
  source advance \<open>y\<close> by the tile width and emit two tiles, the crops at \<open>(0, 0)\<close> and
  at \<open>(0, 1)\<close>.
\<close>

theorem crops_steps_rows_by_tile_width:
  "grid_positions_spec 1 2 1 2 = [(0, 0)] \<and>
   crops img_1x2 1 2 =
     Some (Inr [\<lparr>width = 1, height = 2, data = [1, 2, 3, 4, 5, 6, 7, 8], indexed_data = [1, 2], palette = [7]\<rparr>,
                \<lparr>width = 1, height = 2, data = [5, 6, 7, 8, 0, 0, 0, 0], indexed_data = [2, 0], palette = [7]\<rparr>]) \<and>
   rgba_crops to_rgba img_1x2 1 2 =
     Some (Inr [to_rgba [1, 2, 3, 4, 5, 6, 7, 8], to_rgba [5, 6, 7, 8, 0, 0, 0, 0]]) \<and>
   indexed_crops img_1x2 1 2 = Some (Inr [[1, 2], [2, 0]])"
proof -
  have c0: "crop img_1x2 0 0 1 2 =
    Inr \<lparr>width = 1, height = 2, data = [1, 2, 3, 4, 5, 6, 7, 8], indexed_data = [1, 2], palette = [7]\<rparr>"
    by code_simp
  have c1: "crop img_1x2 0 1 1 2 =
    Inr \<lparr>width = 1, height = 2, data = [5, 6, 7, 8, 0, 0, 0, 0], indexed_data = [2, 0], palette = [7]\<rparr>"
    by code_simp
  have w: "width img_1x2 = 1" "height img_1x2 = 2" "indexed_data img_1x2 = [1, 2]"
    by (simp_all add: img_1x2_def)
  have g: "grid_positions_spec 1 2 1 2 = [(0, 0)]"
    by code_simp
  have r: "crops img_1x2 1 2 =
     Some (Inr [\<lparr>width = 1, height = 2, data = [1, 2, 3, 4, 5, 6, 7, 8], indexed_data = [1, 2], palette = [7]\<rparr>,
                \<lparr>width = 1, height = 2, data = [5, 6, 7, 8, 0, 0, 0, 0], indexed_data = [2, 0], palette = [7]\<rparr>]) \<and>
   rgba_crops to_rgba img_1x2 1 2 =
     Some (Inr [to_rgba [1, 2, 3, 4, 5, 6, 7, 8], to_rgba [5, 6, 7, 8, 0, 0, 0, 0]]) \<and>
   indexed_crops img_1x2 1 2 = Some (Inr [[1, 2], [2, 0]])"
    by (simp add: crops_def rgba_crops_def indexed_crops_def walk_rows.simps walk_row.simps c0 c1 w)
  from g r show ?thesis by (rule conjI)
qed

section \<open>Properties of the re-quantize constructor\<close>

lemma put_rgba_length: "length (put_rgba d k color) = length d"
  by (simp add: put_rgba_def)

lemma put_rgba_nth:
  assumes "4 * k + 4 \<le> length d" "c < 4" "4 * j + c < length d"
  shows "put_rgba d k color ! (4 * j + c) = (if j = k then channel color c else d ! (4 * j + c))"
proof (cases "j = k")
  case True
  from assms(2) consider "c = 0" | "c = 1" | "c = 2" | "c = 3" by arith
  then show ?thesis using assms True by cases (simp_all add: put_rgba_def)
next
  case False
  then have "4 * j + c \<noteq> 4 * k" "4 * j + c \<noteq> 4 * k + 1" "4 * j + c \<noteq> 4 * k + 2"
    "4 * j + c \<noteq> 4 * k + 3" using assms(2) by arith+
  with False show ?thesis by (simp add: put_rgba_def)
qed

lemma set_pixel_put:
  assumes len: "length (data this) = 4 * n" and small: "4 * n < 2 ^ 32" and i: "unat i < n"
  shows "set_pixel this color i = Inr (this\<lparr>data := put_rgba (data this) (unat i) color\<rparr>)"
proof -
  from i small have "unat i * unat (4 :: u32) < 2 ^ 32" by simp
  then have "unat (i * 4) = unat i * unat (4 :: u32)" by (rule unat_mult_nowrap)
  then have off: "unat (i * 4) = 4 * unat i" by simp
  have d: "4 dvd unat (i * 4)" by (rule dvd4_unat_mul4)
  have l: "4 dvd length (data this)" using len by simp
  have le: "unat (i * 4) + 4 \<le> length (data this)" using i len off by simp
  show ?thesis
    unfolding set_pixel_def Let_def guarded_store [OF d l]
    using le by (simp add: put_rgba_def off)
qed

lemma requantize_step:
  assumes len: "length (indexed_data this) = unat size'" "length (data this) = 4 * unat size'"
    and small: "4 * unat size' < 2 ^ 32"
    and i: "i < size'"
  shows "requantize_loop E image' mode' size' i this =
     (let c = pixel_color E image' mode' (unat i) in
      if c = transparent_color \<or> std_find (palette this) c < length (palette this)
      then requantize_loop E image' mode' size' (i + 1)
             (this\<lparr>indexed_data := (indexed_data this)[unat i := expected_index (palette this) c],
                   data := put_rgba (data this) (unat i) (expected_rgba E (palette this) c)\<rparr>)
      else Inl (RuntimeError ''Color not in palette''))"
proof -
  from i have u: "unat i < unat size'" by (simp add: word_less_nat_alt)
  have sp: "\<And>ix color. set_pixel (this\<lparr>indexed_data := ix\<rparr>) color i =
              Inr (this\<lparr>indexed_data := ix, data := put_rgba (data this) (unat i) color\<rparr>)"
    using set_pixel_put [of "this\<lparr>indexed_data := ix\<rparr>" "unat size'" i for ix] len small u
    by simp
  show ?thesis
    using i u len
    by (subst requantize_loop.simps)
      (simp add: Let_def pixel_color_def write_byte_def sp expected_index_def expected_rgba_def)
qed

lemma requantize_loop_spec:
  fixes size' :: u32
  assumes small: "4 * unat size' < 2 ^ 32"
  shows "i \<le> size' \<Longrightarrow> length (indexed_data this) = unat size' \<Longrightarrow>
         length (data this) = 4 * unat size' \<Longrightarrow>
         ((\<forall>k. unat i \<le> k \<and> k < unat size' \<longrightarrow>
              color_ok (palette this) (pixel_color E image' mode' k)) \<longrightarrow>
            (\<exists>this'. requantize_loop E image' mode' size' i this = Inr this' \<and>
               width this' = width this \<and> height this' = height this \<and>
               palette this' = palette this \<and>
               length (indexed_data this') = unat size' \<and> length (data this') = 4 * unat size' \<and>
               requantized_cells E image' mode' (unat i) this this')) \<and>
         ((\<exists>k. unat i \<le> k \<and> k < unat size' \<and>
              \<not> color_ok (palette this) (pixel_color E image' mode' k)) \<longrightarrow>
            requantize_loop E image' mode' size' i this = Inl (RuntimeError ''Color not in palette''))"
proof (induction "unat size' - unat i" arbitrary: i this rule: less_induct)
  case less
  note ile = less.prems(1) and len = less.prems(2,3)
  let ?n = "unat size'"
  show ?case
  proof (cases "i < size'")
    case False
    with ile have eq: "unat i = ?n" by (simp add: word_le_nat_alt word_less_nat_alt)
    from False have r: "requantize_loop E image' mode' size' i this = Inr this"
      by (subst requantize_loop.simps) simp
    show ?thesis unfolding r using eq len by (simp add: requantized_cells_def)
  next
    case True
    then have u: "unat i < ?n" by (simp add: word_less_nat_alt)
    have u1: "unat (i + 1) = Suc (unat i)" using True by (rule unat_inc_below)
    have ile1: "i + 1 \<le> size'" using True by (simp add: inc_le)
    let ?c = "pixel_color E image' mode' (unat i)"
    let ?this1 = "this\<lparr>indexed_data := (indexed_data this)[unat i := expected_index (palette this) ?c],
                   data := put_rgba (data this) (unat i) (expected_rgba E (palette this) ?c)\<rparr>"
    note step = requantize_step [OF len small True, of E image' mode', unfolded Let_def]
    show ?thesis
    proof (cases "color_ok (palette this) ?c")
      case False
      then have "requantize_loop E image' mode' size' i this = Inl (RuntimeError ''Color not in palette'')"
        unfolding step by (simp add: color_ok_def)
      moreover from False u have "\<not> (\<forall>k. unat i \<le> k \<and> k < ?n \<longrightarrow>
              color_ok (palette this) (pixel_color E image' mode' k))" by auto
      ultimately show ?thesis by simp
    next
      case ok: True
      then have s: "requantize_loop E image' mode' size' i this =
                    requantize_loop E image' mode' size' (i + 1) ?this1"
        unfolding step by (simp add: color_ok_def)
      have len1: "length (indexed_data ?this1) = ?n" "length (data ?this1) = 4 * ?n"
        using len by (simp_all add: put_rgba_length)
      have m: "?n - unat (i + 1) < ?n - unat i" using u u1 by simp
      note IH = less.hyps [OF m ile1 len1]
      have pal1: "palette ?this1 = palette this" by simp
      have rest: "(\<forall>k. unat i \<le> k \<and> k < ?n \<longrightarrow> color_ok (palette this) (pixel_color E image' mode' k))
                   \<longleftrightarrow> (\<forall>k. Suc (unat i) \<le> k \<and> k < ?n \<longrightarrow> color_ok (palette this) (pixel_color E image' mode' k))"
      proof
        assume a: "\<forall>k. Suc (unat i) \<le> k \<and> k < ?n \<longrightarrow> color_ok (palette this) (pixel_color E image' mode' k)"
        show "\<forall>k. unat i \<le> k \<and> k < ?n \<longrightarrow> color_ok (palette this) (pixel_color E image' mode' k)"
        proof (intro allI impI)
          fix k assume k: "unat i \<le> k \<and> k < ?n"
          show "color_ok (palette this) (pixel_color E image' mode' k)"
          proof (cases "k = unat i")
            case True with ok show ?thesis by simp
          next
            case False with k a show ?thesis by simp
          qed
        qed
      qed simp
      show ?thesis
      proof (intro conjI impI)
        assume all: "\<forall>k. unat i \<le> k \<and> k < ?n \<longrightarrow> color_ok (palette this) (pixel_color E image' mode' k)"
        with rest IH [THEN conjunct1] obtain this' where
          r: "requantize_loop E image' mode' size' (i + 1) ?this1 = Inr this'" and
          f: "width this' = width ?this1" "height this' = height ?this1" "palette this' = palette ?this1"
             "length (indexed_data this') = ?n" "length (data this') = 4 * ?n" and
          c: "requantized_cells E image' mode' (unat (i + 1)) ?this1 this'"
          unfolding pal1 u1 by blast
        have "requantized_cells E image' mode' (unat i) this this'"
          unfolding requantized_cells_def
        proof (intro allI impI conjI)
          fix k assume k: "k < length (indexed_data this)"
          then have k1: "k < length (indexed_data ?this1)" by simp
          from c [unfolded requantized_cells_def, rule_format, OF k1, THEN conjunct1]
          show "indexed_data this' ! k =
                  (if unat i \<le> k then expected_index (palette this) (pixel_color E image' mode' k)
                   else indexed_data this ! k)"
            using k unfolding u1 by (cases "k = unat i") auto
        next
          fix k c' assume k: "k < length (indexed_data this)" and c': "c' < (4 :: nat)"
          then have k1: "k < length (indexed_data ?this1)" by simp
          from k len have kb: "4 * k + c' < length (data this)" "4 * unat i + 4 \<le> length (data this)"
            using c' u by simp_all
          from c [unfolded requantized_cells_def, rule_format, OF k1, THEN conjunct2, rule_format, OF c']
          show "data this' ! (4 * k + c') =
                  (if unat i \<le> k
                   then channel (expected_rgba E (palette this) (pixel_color E image' mode' k)) c'
                   else data this ! (4 * k + c'))"
            using put_rgba_nth [OF kb(2) c' kb(1), of "expected_rgba E (palette this) ?c"]
            unfolding u1 by (cases "k = unat i") auto
        qed
        with s r f show "\<exists>this'. requantize_loop E image' mode' size' i this = Inr this' \<and>
               width this' = width this \<and> height this' = height this \<and>
               palette this' = palette this \<and>
               length (indexed_data this') = ?n \<and> length (data this') = 4 * ?n \<and>
               requantized_cells E image' mode' (unat i) this this'"
          by simp
      next
        assume "\<exists>k. unat i \<le> k \<and> k < ?n \<and> \<not> color_ok (palette this) (pixel_color E image' mode' k)"
        with rest have "\<exists>k. unat (i + 1) \<le> k \<and> k < ?n \<and>
                         \<not> color_ok (palette ?this1) (pixel_color E image' mode' k)"
          unfolding u1 pal1 by blast
        with IH [THEN conjunct2] s
        show "requantize_loop E image' mode' size' i this = Inl (RuntimeError ''Color not in palette'')"
          by simp
      qed
    qed
  qed
qed




lemma Image_requantize_spec:
  assumes small: "unat (width image') * unat (height image') * 4 < 2 ^ 32"
    and ne: "get_normalized_colors sp \<noteq> []"
  shows "((\<forall>k<unat (width image') * unat (height image').
             color_ok (get_normalized_colors sp) (pixel_color E image' (mode sp) k)) \<longrightarrow>
          (\<exists>img. Image_requantize E image' sp = Inr img \<and>
             width img = width image' \<and> height img = height image' \<and>
             palette img = get_normalized_colors sp \<and>
             length (indexed_data img) = unat (width image') * unat (height image') \<and>
             length (data img) = 4 * (unat (width image') * unat (height image')) \<and>
             (\<forall>k<unat (width image') * unat (height image').
                indexed_data img ! k =
                  expected_index (get_normalized_colors sp) (pixel_color E image' (mode sp) k) \<and>
                (\<forall>c<4. data img ! (4 * k + c) =
                  channel (expected_rgba E (get_normalized_colors sp)
                             (pixel_color E image' (mode sp) k)) c)))) \<and>
         ((\<exists>k<unat (width image') * unat (height image').
             \<not> color_ok (get_normalized_colors sp) (pixel_color E image' (mode sp) k)) \<longrightarrow>
          Image_requantize E image' sp = Inl (RuntimeError ''Color not in palette''))"
proof -
  define n where "n = unat (width image') * unat (height image')"
  define size' where "size' = width image' * height image'"
  define this0 where "this0 = \<lparr>width = width image', height = height image',
     data = replicate (unat (size' * 4)) (0 :: channel_t),
     indexed_data = replicate (unat size') (0 :: index_t), palette = get_normalized_colors sp\<rparr>"
  have "unat (width image') * unat (height image') < 2 ^ 32" using small by linarith
  then have us: "unat size' = n" unfolding size'_def n_def by (rule unat_mult_nowrap)
  have n4: "4 * n < 2 ^ 32" using small by (simp add: n_def mult.commute)
  then have "unat size' * unat (4 :: u32) < 2 ^ 32" by (simp add: us mult.commute)
  then have "unat (size' * 4) = unat size' * unat (4 :: u32)" by (rule unat_mult_nowrap)
  then have us4: "unat (size' * 4) = 4 * n" by (simp add: us)
  have eq: "Image_requantize E image' sp = requantize_loop E image' (mode sp) size' 0 this0"
    using ne by (simp add: Image_requantize_def Let_def Image_default_def this0_def size'_def)
  have small': "4 * unat size' < 2 ^ 32" using n4 by (simp add: us)
  have l: "length (indexed_data this0) = unat size'" "length (data this0) = 4 * unat size'"
    by (simp_all add: this0_def us us4)
  note spec = requantize_loop_spec [OF small' _ l, of 0 E image' "mode sp", simplified]
  have f0: "width this0 = width image'" "height this0 = height image'"
    "palette this0 = get_normalized_colors sp" by (simp_all add: this0_def)
  show ?thesis
    unfolding n_def [symmetric] eq
    using spec unfolding us f0 requantized_cells_def l(1) by simp
qed

lemma requantize_inverts:
  assumes run: "Image_requantize E image' sp = Inr img"
    and small: "unat (width image') * unat (height image') * 4 < 2 ^ 32"
  shows "get_normalized_colors sp \<noteq> [] \<and>
         palette img = get_normalized_colors sp \<and>
         (\<forall>k<unat (width image') * unat (height image').
            color_ok (get_normalized_colors sp) (pixel_color E image' (mode sp) k) \<and>
            indexed_data img ! k =
              expected_index (get_normalized_colors sp) (pixel_color E image' (mode sp) k) \<and>
            (\<forall>c<4. data img ! (4 * k + c) =
              channel (expected_rgba E (get_normalized_colors sp)
                         (pixel_color E image' (mode sp) k)) c))"
proof -
  have ne: "get_normalized_colors sp \<noteq> []"
    using run by (auto simp add: Image_requantize_def Let_def Image_default_def split: if_splits)
  note spec = Image_requantize_spec [OF small ne, of E]
  have all: "\<forall>k<unat (width image') * unat (height image').
             color_ok (get_normalized_colors sp) (pixel_color E image' (mode sp) k)"
  proof (rule ccontr)
    assume "\<not> ?thesis"
    then have "\<exists>k<unat (width image') * unat (height image').
             \<not> color_ok (get_normalized_colors sp) (pixel_color E image' (mode sp) k)" by blast
    with spec [THEN conjunct2] run show False by simp
  qed
  with spec [THEN conjunct1] run ne show ?thesis by auto
qed

text \<open>
  C2 (as amended).  Let the constructor return a bitmap for a source image with
  \<open>width * height * 4 < 2 ^ 32\<close> and a subpalette of at most 256 colours (an index is
  one byte).  For every pixel position \<open>i\<close>: if the source pixel's colour, reduced and
  then normalised under the subpalette's mode, is \<open>transparent_color\<close>, then
  \<open>indexed_pixels[i]\<close> is 0 and the four bytes of \<open>pixels[i]\<close> are the channels of
  \<open>transparent_color\<close>, whatever \<open>palette[0]\<close> is; otherwise \<open>indexed_pixels[i]\<close> is a
  valid index into the palette and \<open>pixels[i]\<close> holds the channels of the RGBA
  expansion of \<open>palette[indexed_pixels[i]]\<close>.
\<close>

theorem requantized_pixel_consistent:
  assumes run: "Image_requantize E image' subpalette = Inr img"
    and small: "unat (width image') * unat (height image') * 4 < 2 ^ 32"
    and le256: "length (get_normalized_colors subpalette) \<le> 256"
    and i: "i < unat (width image') * unat (height image')"
  shows "if pixel_color E image' (mode subpalette) i = transparent_color
         then indexed_data img ! i = 0 \<and>
              (\<forall>c<4. data img ! (4 * i + c) = channel transparent_color c)
         else unat (indexed_data img ! i) < length (palette img) \<and>
              (\<forall>c<4. data img ! (4 * i + c) =
                 channel (rgba_color E (palette img ! unat (indexed_data img ! i))) c)"
proof -
  let ?pal = "get_normalized_colors subpalette"
  let ?c = "pixel_color E image' (mode subpalette) i"
  from requantize_inverts [OF run small] i have
    pal: "palette img = ?pal" and ok: "color_ok ?pal ?c" and
    ix: "indexed_data img ! i = expected_index ?pal ?c" and
    px: "\<forall>c<4. data img ! (4 * i + c) = channel (expected_rgba E ?pal ?c) c"
    by blast+
  show ?thesis
  proof (cases "?c = transparent_color")
    case True
    with ix px show ?thesis by (simp add: expected_index_def expected_rgba_def)
  next
    case False
    with ok have p: "std_find ?pal ?c < length ?pal" by (simp add: color_ok_def)
    with le256 have "std_find ?pal ?c < 256" by simp
    then have "unat (of_nat (std_find ?pal ?c) :: index_t) = std_find ?pal ?c"
      by (simp add: unat_of_nat)
    with False ix have u: "unat (indexed_data img ! i) = std_find ?pal ?c"
      by (simp add: expected_index_def)
    from False px p show ?thesis unfolding u pal by (simp add: expected_rgba_def)
  qed
qed

theorem requantized_pixel_consistent_witness:
  "Image_requantize E_plain img_px2 sub_two =
     Inr \<lparr>width = 1, height = 1, data = [2, 0, 0, 0], indexed_data = [1], palette = [1, 2]\<rparr> \<and>
   unat (width img_px2) * unat (height img_px2) * 4 < 2 ^ 32 \<and>
   length (get_normalized_colors sub_two) \<le> 256 \<and>
   pixel_color E_plain img_px2 (mode sub_two) 0 \<noteq> transparent_color \<and>
   unat ([1 :: index_t] ! 0) < length [1 :: rgba_t, 2]"
proof -
  have run: "Image_requantize E_plain img_px2 sub_two =
     Inr \<lparr>width = 1, height = 1, data = [2, 0, 0, 0], indexed_data = [1], palette = [1, 2]\<rparr>"
    by code_simp
  have small: "unat (width img_px2) * unat (height img_px2) * 4 < 2 ^ 32"
    by (simp add: img_px2_def)
  have le: "length (get_normalized_colors sub_two) \<le> 256" by (simp add: sub_two_def)
  have i: "0 < unat (width img_px2) * unat (height img_px2)" by (simp add: img_px2_def)
  have c: "pixel_color E_plain img_px2 (mode sub_two) 0 \<noteq> transparent_color"
    by code_simp
  from requantized_pixel_consistent [OF run small le i] c run small le
  show ?thesis by simp
qed

text \<open>
  Without the bound on the palette the claim fails: with 257 colours of which only
  the last equals the pixel's colour, the position 256 found by the scan is stored
  as the byte 0, while the pixel is written from entry 256.
\<close>

theorem requantize_index_truncated_counterexample:
  "\<exists>img. Image_requantize E_plain img_px2 sub_257 = Inr img \<and>
      pixel_color E_plain img_px2 (mode sub_257) 0 \<noteq> transparent_color \<and>
      data img ! (4 * 0 + 0) \<noteq>
        channel (rgba_color E_plain (palette img ! unat (indexed_data img ! 0))) 0"
proof -
  have run: "Image_requantize E_plain img_px2 sub_257 =
     Inr \<lparr>width = 1, height = 1, data = [2, 0, 0, 0], indexed_data = [0],
          palette = replicate 256 1 @ [2]\<rparr>"
    by code_simp
  have c: "pixel_color E_plain img_px2 (mode sub_257) 0 \<noteq> transparent_color"
    by code_simp
  have d: "[2, 0, 0, 0 :: channel_t] ! (4 * 0 + 0) \<noteq>
        channel (rgba_color E_plain ((replicate 256 1 @ [2]) ! unat ([0 :: index_t] ! 0))) 0"
    by code_simp
  from run c d show ?thesis by simp
qed




section \<open>Properties of the decode constructor\<close>

lemma pack_add:
  fixes r g b a :: channel_t
  shows "(ucast r + push_bit 8 (ucast g) + push_bit 16 (ucast b) + push_bit 24 (ucast a) :: rgba_t) =
         pack_rgba r g b a"
proof -
  have 1: "(ucast r + push_bit 8 (ucast g) :: rgba_t) = ucast r OR push_bit 8 (ucast g)"
    by (rule disjunctive_add) (auto simp add: bit_simps dest: bit_imp_le_length)
  have 2: "(ucast r OR push_bit 8 (ucast g)) + push_bit 16 (ucast b) =
           ((ucast r OR push_bit 8 (ucast g)) OR push_bit 16 (ucast b) :: rgba_t)"
    by (rule disjunctive_add) (auto simp add: bit_simps dest: bit_imp_le_length)
  have 3: "((ucast r OR push_bit 8 (ucast g)) OR push_bit 16 (ucast b)) + push_bit 24 (ucast a) =
           (((ucast r OR push_bit 8 (ucast g)) OR push_bit 16 (ucast b)) OR push_bit 24 (ucast a) :: rgba_t)"
    by (rule disjunctive_add) (auto simp add: bit_simps dest: bit_imp_le_length)
  show ?thesis unfolding pack_rgba_def 1 2 3 ..
qed

lemma palette_loop_spec:
  assumes small: "4 * n < 2 ^ 32" and len: "4 * n \<le> length t"
  shows "k \<le> n \<Longrightarrow> palette_loop t n (of_nat (4 * k)) pal =
           Some (Inr (pal @ map (table_entry t) [k..<n]))"
proof (induction "n - k" arbitrary: k pal rule: less_induct)
  case less
  from less.prems small have "4 * k < 2 ^ LENGTH(32)" by simp
  then have u: "unat (of_nat (4 * k) :: u32) = 4 * k"
    by (rule of_nat_inverse [OF refl])
  show ?case
  proof (cases "k < n")
    case False
    with less.prems have "k = n" by simp
    then show ?thesis using u by (subst palette_loop.simps) simp
  next
    case True
    have d: "4 dvd unat (of_nat (4 * k) :: u32)" unfolding u by simp
    have u1: "unat (of_nat (4 * k) + 1 :: u32) = 4 * k + 1"
      using unat_plus_small [OF d, of 1] u by simp
    have u2: "unat (of_nat (4 * k) + 2 :: u32) = 4 * k + 2"
      using unat_plus_small [OF d, of 2] u by simp
    have u3: "unat (of_nat (4 * k) + 3 :: u32) = 4 * k + 3"
      using unat_plus_small [OF d, of 3] u by simp
    have nx: "(of_nat (4 * k) + 4 :: u32) = of_nat (4 * Suc k)" by simp
    from True len have r: "4 * k + 3 < length t" by simp
    have step: "palette_loop t n (of_nat (4 * k)) pal =
                palette_loop t n (of_nat (4 * Suc k)) (pal @ [table_entry t k])"
      using True r
      by (subst palette_loop.simps)
        (simp add: u u1 u2 u3 read_byte_def pack_add table_entry_def nx del: of_nat_mult of_nat_Suc of_nat_add)
    from True have "n - Suc k < n - k" "Suc k \<le> n" by simp_all
    from less.hyps [OF this, of "pal @ [table_entry t k]"] step True
    show ?thesis by (simp add: upt_conv_Cons)
  qed
qed

lemma palette_loop_all:
  assumes "n \<le> 256" "4 * n \<le> length t"
  shows "palette_loop t n 0 [] = Some (Inr (map (table_entry t) [0..<n]))"
proof -
  from assms(1) have "4 * n < 2 ^ 32" by simp
  from palette_loop_spec [OF this assms(2), of 0 "[]"] show ?thesis by simp
qed

text \<open>
  C3 (as amended).  Let the first decode succeed and leave in \<open>info_raw\<close> the file's
  native colour mode, as the decoder does when conversion is off.  The second
  decode, with conversion on and 8-bit RGBA requested, is performed if and only if
  the native colour type is palette, RGB, grey or grey with alpha, or the native bit
  depth is not 8; its outcome is then the outcome of the constructor and its output
  the pixel buffer.  Otherwise, that is for 8-bit RGBA files only, the first
  decode's output is the pixel buffer.
\<close>

theorem decode_second_pass:
  assumes load: "load_file C path = (0, buffer)"
    and d1: "decode C (State_default\<lparr>color_convert := False\<rparr>) buffer = (0, out1, w1, h1, st1)"
    and native: "info_raw st1 = info_png_color st1"
    and table: "colortype (info_png_color st1) = LCT_PALETTE \<longrightarrow>
                  palettesize (info_png_color st1) \<le> 256 \<and>
                  4 * palettesize (info_png_color st1) \<le> length (palette_table (info_png_color st1))"
    and d2: "decode C (second_pass_state st1) buffer = (e2, out2, w2, h2, st3)"
  shows "if colortype (info_png_color st1) \<in> {LCT_PALETTE, LCT_RGB, LCT_GREY, LCT_GREY_ALPHA} \<or>
            bitdepth (info_png_color st1) \<noteq> 8
         then (if e2 \<noteq> 0
               then Image_from_file C path = Some (Inl (RuntimeError (lodepng_error_text C e2)))
               else \<exists>img. Image_from_file C path = Some (Inr img) \<and>
                      data img = out2 \<and> width img = w2 \<and> height img = h2)
         else Image_from_file C path =
                Some (Inr \<lparr>width = w1, height = h1, data = out1, indexed_data = [], palette = []\<rparr>)"
proof (cases "colortype (info_png_color st1) = LCT_PALETTE")
  case True
  with table have t: "palettesize (info_png_color st1) \<le> 256"
    "4 * palettesize (info_png_color st1) \<le> length (palette_table (info_png_color st1))" by simp_all
  have st: "st1\<lparr>info_raw := (info_png_color st1)\<lparr>colortype := LCT_RGBA, bitdepth := 8\<rparr>,
               color_convert := True\<rparr> = second_pass_state st1"
    "bitdepth (info_png_color st1) = 8 \<Longrightarrow>
     st1\<lparr>info_raw := (info_png_color st1)\<lparr>colortype := LCT_RGBA\<rparr>, color_convert := True\<rparr> =
       second_pass_state st1"
    by (simp_all add: second_pass_state_def native)
  show ?thesis
    using True
    by (simp add: Image_from_file_def load d1 Let_def palette_branch_def colortype_branch_def
        bitdepth_branch_def native palette_loop_all [OF t] Image_default_def st d2)
next
  case False
  have st: "st1\<lparr>info_raw := (info_png_color st1)\<lparr>colortype := LCT_RGBA, bitdepth := 8\<rparr>,
               color_convert := True\<rparr> = second_pass_state st1"
    "bitdepth (info_png_color st1) = 8 \<Longrightarrow>
     st1\<lparr>info_raw := (info_png_color st1)\<lparr>colortype := LCT_RGBA\<rparr>, color_convert := True\<rparr> =
       second_pass_state st1"
    "colortype (info_png_color st1) = LCT_RGBA \<Longrightarrow>
     st1\<lparr>info_raw := (info_png_color st1)\<lparr>bitdepth := 8\<rparr>, color_convert := True\<rparr> =
       second_pass_state st1"
    by (simp_all add: second_pass_state_def native)
  show ?thesis
    using False
    by (cases "colortype (info_png_color st1)")
      (simp_all add: Image_from_file_def load d1 Let_def palette_branch_def colortype_branch_def
        bitdepth_branch_def native Image_default_def st d2)
qed

theorem decode_second_pass_witness:
  "load_file codec_rgba8 ''a.png'' = (0, [137, 80, 78, 71]) \<and>
   decode codec_rgba8 (State_default\<lparr>color_convert := False\<rparr>) [137, 80, 78, 71] =
     (0, [1, 2, 3, 4], 1, 1,
      State_default\<lparr>color_convert := False, info_raw := mode_rgba8, info_png_color := mode_rgba8\<rparr>) \<and>
   Image_from_file codec_rgba8 ''a.png'' =
     Some (Inr \<lparr>width = 1, height = 1, data = [1, 2, 3, 4], indexed_data = [], palette = []\<rparr>) \<and>
   load_file codec_pal8 ''b.png'' = (0, [137, 80, 78, 71]) \<and>
   decode codec_pal8 (State_default\<lparr>color_convert := False\<rparr>) [137, 80, 78, 71] =
     (0, [0], 1, 1,
      State_default\<lparr>color_convert := False, info_raw := mode_pal8, info_png_color := mode_pal8\<rparr>) \<and>
   (\<exists>img. Image_from_file codec_pal8 ''b.png'' = Some (Inr img) \<and>
      data img = [255, 0, 0, 255] \<and> width img = 1 \<and> height img = 1)"
proof -
  let ?sa = "State_default\<lparr>color_convert := False, info_raw := mode_rgba8, info_png_color := mode_rgba8\<rparr>"
  let ?sb = "State_default\<lparr>color_convert := False, info_raw := mode_pal8, info_png_color := mode_pal8\<rparr>"
  have la: "load_file codec_rgba8 ''a.png'' = (0, [137, 80, 78, 71])"
    by (simp add: codec_rgba8_def)
  have da: "decode codec_rgba8 (State_default\<lparr>color_convert := False\<rparr>) [137, 80, 78, 71] =
     (0, [1, 2, 3, 4], 1, 1, ?sa)" by (simp add: codec_rgba8_def)
  have na: "info_raw ?sa = info_png_color ?sa" by simp
  have ta: "colortype (info_png_color ?sa) = LCT_PALETTE \<longrightarrow>
              palettesize (info_png_color ?sa) \<le> 256 \<and>
              4 * palettesize (info_png_color ?sa) \<le> length (palette_table (info_png_color ?sa))"
    by (simp add: mode_rgba8_def)
  have d2a: "decode codec_rgba8 (second_pass_state ?sa) [137, 80, 78, 71] =
     (0, [1, 2, 3, 4], 1, 1,
      (second_pass_state ?sa)\<lparr>info_raw := mode_rgba8, info_png_color := mode_rgba8\<rparr>)"
    by (simp add: codec_rgba8_def)
  have lb: "load_file codec_pal8 ''b.png'' = (0, [137, 80, 78, 71])"
    by (simp add: codec_pal8_def)
  have db: "decode codec_pal8 (State_default\<lparr>color_convert := False\<rparr>) [137, 80, 78, 71] =
     (0, [0], 1, 1, ?sb)" by (simp add: codec_pal8_def State_default_def)
  have nb: "info_raw ?sb = info_png_color ?sb" by simp
  have tb: "colortype (info_png_color ?sb) = LCT_PALETTE \<longrightarrow>
              palettesize (info_png_color ?sb) \<le> 256 \<and>
              4 * palettesize (info_png_color ?sb) \<le> length (palette_table (info_png_color ?sb))"
    by (simp add: mode_pal8_def)
  have d2b: "decode codec_pal8 (second_pass_state ?sb) [137, 80, 78, 71] =
     (0, [255, 0, 0, 255], 1, 1, second_pass_state ?sb)"
    by (simp add: codec_pal8_def second_pass_state_def)
  from decode_second_pass [OF la da na ta d2a] decode_second_pass [OF lb db nb tb d2b] la da lb db
  show ?thesis by (simp add: mode_rgba8_def mode_pal8_def)
qed

text \<open>
  An 8-bit palette file is neither RGB nor grey nor of another depth than 8, and yet
  it is decoded a second time: its pixel buffer is the converted one, not the
  index bytes of the first pass.
\<close>

theorem decode_palette_converted_counterexample:
  "colortype (info_png_color (State_default\<lparr>info_raw := mode_pal8, info_png_color := mode_pal8\<rparr>))
     \<notin> {LCT_RGB, LCT_GREY, LCT_GREY_ALPHA} \<and>
   bitdepth (info_png_color (State_default\<lparr>info_raw := mode_pal8, info_png_color := mode_pal8\<rparr>)) = 8 \<and>
   decode codec_pal8 (State_default\<lparr>color_convert := False\<rparr>) [137, 80, 78, 71] =
     (0, [0], 1, 1,
      State_default\<lparr>color_convert := False, info_raw := mode_pal8, info_png_color := mode_pal8\<rparr>) \<and>
   Image_from_file codec_pal8 ''b.png'' =
     Some (Inr \<lparr>width = 1, height = 1, data = [255, 0, 0, 255], indexed_data = [0],
                palette = [0xFF0000FF]\<rparr>)"
proof -
  have "palette_loop [255, 0, 0, 255] 1 0 [] = Some (Inr [0xFF0000FF])"
    by (simp add: palette_loop.simps read_byte_def)
  then show ?thesis
    by (simp add: Image_from_file_def codec_pal8_def State_default_def mode_pal8_def Let_def
        palette_branch_def colortype_branch_def bitdepth_branch_def Image_default_def)
qed

text \<open>
  The palette of a palette-indexed file that the constructor accepts: it has the
  \<open>N \<le> 256\<close> entries of the decoder's table, in the order of the table, entry \<open>k\<close> packed
  \<open>R | G<<8 | B<<16 | A<<24\<close>; and the index buffer is the raw buffer of the first
  decode, as it is.
\<close>

lemma decode_palette_order:
  assumes load: "load_file C path = (0, buffer)"
    and d1: "decode C (State_default\<lparr>color_convert := False\<rparr>) buffer = (0, out1, w1, h1, st1)"
    and pal: "colortype (info_raw st1) = LCT_PALETTE"
    and n: "palettesize (info_raw st1) = N" "N \<le> 256"
    and table: "4 * N \<le> length (palette_table (info_raw st1))"
    and accepted: "Image_from_file C path = Some (Inr img)"
  shows "length (palette img) = N \<and>
         (\<forall>k<N. palette img ! k =
            pack_rgba (palette_table (info_raw st1) ! (4 * k))
                      (palette_table (info_raw st1) ! (4 * k + 1))
                      (palette_table (info_raw st1) ! (4 * k + 2))
                      (palette_table (info_raw st1) ! (4 * k + 3))) \<and>
         indexed_data img = out1"
proof -
  let ?t = "palette_table (info_raw st1)"
  have pl: "palette_loop ?t (palettesize (info_raw st1)) 0 [] = Some (Inr (map (table_entry ?t) [0..<N]))"
    unfolding n(1) using n(2) table by (rule palette_loop_all)
  from accepted have "indexed_data img = out1 \<and> palette img = map (table_entry ?t) [0..<N]"
    by (auto simp add: Image_from_file_def load d1 Let_def palette_branch_def colortype_branch_def
        bitdepth_branch_def pal pl Image_default_def split: prod.splits if_splits)
  then show ?thesis by (simp add: table_entry_def)
qed

text \<open>
  C4 (the code at the failing input).  The file is a palette-indexed PNG of bit depth
  4, two pixels wide and one high, with the two palette entries black and white and
  the pixel indices 1 and 0.  The first, unconverted decode returns the pixels as the
  file packs them, two to a byte: the single byte \<open>0x10\<close>.  The constructor takes that
  buffer as the index buffer, as it is (line 20): the bitmap it builds has the palette
  of the file, in order, and the eight pixel bytes of the second decode, but its index
  buffer has length one, not \<open>width * height = 2\<close>, and its value 16 is no index into a
  palette of two entries.  \<^verbatim>\<open>crop\<close> reads the index buffer one byte per pixel (line
  147): the crop of the whole bitmap copies a row of two index bytes out of that
  buffer of one.
\<close>

theorem decode_keeps_packed_indices:
  "colortype mode_pal4 = LCT_PALETTE \<and> bitdepth mode_pal4 = 4 \<and> palettesize mode_pal4 = 2 \<and>
   Image_from_file codec_pal4 ''c.png'' =
     Some (Inr \<lparr>width = 2, height = 1, data = [255, 255, 255, 255, 0, 0, 0, 255],
                indexed_data = [0x10], palette = [0xFF000000, 0xFFFFFFFF]\<rparr>) \<and>
   length [0x10 :: index_t] \<noteq> unat (2 :: u32) * unat (1 :: u32) \<and>
   \<not> unat ([0x10 :: index_t] ! 0) < 2 \<and>
   crop \<lparr>width = 2, height = 1, data = [255, 255, 255, 255, 0, 0, 0, 255],
         indexed_data = [0x10], palette = [0xFF000000, 0xFFFFFFFF]\<rparr> 0 0 2 1 = Inl OutOfBounds"
proof -
  have "palette_loop [0, 0, 0, 255, 255, 255, 255, 255] 2 0 [] = Some (Inr [0xFF000000, 0xFFFFFFFF])"
    by (simp add: palette_loop.simps read_byte_def)
  then have a: "Image_from_file codec_pal4 ''c.png'' =
     Some (Inr \<lparr>width = 2, height = 1, data = [255, 255, 255, 255, 0, 0, 0, 255],
                indexed_data = [0x10], palette = [0xFF000000, 0xFFFFFFFF]\<rparr>)"
    by (simp add: Image_from_file_def codec_pal4_def State_default_def mode_pal4_def Let_def
        palette_branch_def colortype_branch_def bitdepth_branch_def Image_default_def)
  have c: "crop \<lparr>width = 2, height = 1, data = [255, 255, 255, 255, 0, 0, 0, 255],
         indexed_data = [0x10], palette = [0xFF000000, 0xFFFFFFFF]\<rparr> 0 0 2 1 = Inl OutOfBounds"
    by (simp add: crop_def Let_def Image_default_def fill_loop.simps
        copy_rows.simps memcpy_def object_bytes_def transparent_color_def)
  from a c show ?thesis by (simp add: mode_pal4_def)
qed

end
